theory Spec2Isabelle
  imports Complex_Main "HOL-Library.Word"
begin

section \<open>Common types\<close>

text \<open>
  \<open>HASH_INDEX_T\<close> is \<open>size_t\<close> in \<open>ht.h\<close> and \<open>unsigned long long\<close> in \<open>hash.h\<close>;
  both are modelled as 64-bit words (LP64), whose \<open>+\<close>, \<open>-\<close> and \<open>*\<close> wrap around
  as the unsigned C++ arithmetic does.

  A C++ exception is a value of \<open>error\<close>. Two kinds of undefined behaviour that the source can
  reach are errors of the model as well, so that no theorem silently reads an unspecified value:
  \<open>OutOfBounds\<close> for an array access outside the array and \<open>UseAfterFree\<close> for a read
  through a pointer whose \<open>HashItem\<close> has been deleted.
\<close>

type_synonym HASH_INDEX_T = "64 word"

datatype error =
    KeyNotFound          \<comment> \<open>\<open>std::out_of_range("Key not found")\<close>\<close>
  | ProbeExhausted       \<comment> \<open>\<open>std::logic_error("No free location found")\<close>\<close>
  | CapacityExhausted    \<comment> \<open>\<open>std::logic_error("Maximum capacity reached, ...")\<close>\<close>
  | OutOfBounds
  | UseAfterFree

section \<open>hash.h: MyStringHash\<close>

text \<open>The debug coefficients, \<open>rValues[5]\<close>.\<close>

definition rValues :: "HASH_INDEX_T list" where
  "rValues = [983132572, 1468777056, 552714139, 984953261, 261934300]"

text \<open>
  \<open>letterDigitToNumber\<close>: a digit gives \<open>26 + (letter - '0')\<close>; anything else is lowered
  with \<open>tolower\<close> and gives \<open>letter - 'a'\<close>, an \<open>int\<close> that is converted to the unsigned
  64-bit result (so a character below \<open>'a'\<close> wraps around). Characters are read as their
  byte value \<open>0..255\<close>; for a byte above 127 the source's result depends on whether \<open>char\<close>
  is signed, and no theorem below uses such a byte.
\<close>

definition isdigit :: "nat \<Rightarrow> bool" where
  "isdigit c = (48 \<le> c \<and> c \<le> 57)"

definition tolower :: "nat \<Rightarrow> nat" where
  "tolower c = (if 65 \<le> c \<and> c \<le> 90 then c + 32 else c)"

definition letterDigitToNumber :: "char \<Rightarrow> HASH_INDEX_T" where
  "letterDigitToNumber letter =
     (let c = (of_char letter :: nat) in
      if isdigit c then 26 + word_of_nat (c - 48)
      else word_of_int (int (tolower c) - 97))"

text \<open>
  \<open>computeSubstringValue(k, start, end)\<close>: the loop
  \<open>for (int i = end - 1; i >= start; i--)\<close>, with \<open>value\<close> and \<open>base\<close> as accumulators.
  An index outside the string contributes nothing, but \<open>base\<close> is multiplied all the same.
\<close>

function computeSubstringValue_loop ::
  "string \<Rightarrow> int \<Rightarrow> int \<Rightarrow> 64 word \<Rightarrow> 64 word \<Rightarrow> 64 word" where
  "computeSubstringValue_loop k start i val base =
     (if i \<ge> start
      then computeSubstringValue_loop k start (i - 1)
             (if 0 \<le> i \<and> i < int (length k)
              then val + letterDigitToNumber (k ! nat i) * base else val)
             (base * 36)
      else val)"
  by pat_completeness auto
termination
  by (relation "measure (\<lambda>(k, start, i, val, base). nat (i - start + 1))") auto

definition computeSubstringValue :: "string \<Rightarrow> int \<Rightarrow> int \<Rightarrow> 64 word" where
  "computeSubstringValue k start end = computeSubstringValue_loop k start (end - 1) 0 1"

text \<open>
  \<open>operator()\<close>: \<open>pos\<close> starts at \<open>len % 6\<close>; the loop \<open>while (index >= 0)\<close> runs for
  \<open>index = 4, 3, 2, 1, 0\<close> and is written as a recursion on \<open>index + 1\<close>. The final sum runs
  over \<open>i = 0..4\<close>.
\<close>

fun fill_w :: "string \<Rightarrow> int \<Rightarrow> nat \<Rightarrow> 64 word list \<Rightarrow> 64 word list" where
  "fill_w k pos 0 w = w"
| "fill_w k pos (Suc index) w =
     fill_w k (pos - 6) index (w[index := computeSubstringValue k (pos - 6) pos])"

definition MyStringHash :: "string \<Rightarrow> HASH_INDEX_T" where
  "MyStringHash k =
     (let len = int (length k);
          pos = len mod 6;
          w = fill_w k pos 5 (replicate 5 0)
      in foldl (\<lambda>hash i. hash + rValues ! i * w ! i) 0 [0..<5])"

section \<open>ht.h: probers\<close>

text \<open>\<open>Prober::npos\<close> is \<open>(HASH_INDEX_T)-1\<close>.\<close>

definition npos :: HASH_INDEX_T where
  "npos = - 1"

text \<open>
  The fields \<open>start_\<close>, \<open>m_\<close> and \<open>numProbes_\<close> of the base class \<open>Prober\<close>;
  \<open>DoubleHashProber\<close> adds \<open>dhstep_\<close> (its secondary hash \<open>h2_\<close> is passed to \<open>init\<close>
  as an argument). A record field cannot end in an underscore, so the fields carry the prefix
  \<open>prober_\<close> instead.
\<close>

record Prober =
  prober_start :: HASH_INDEX_T
  prober_m :: HASH_INDEX_T
  prober_numProbes :: HASH_INDEX_T

record DoubleHashProber = Prober +
  prober_dhstep :: HASH_INDEX_T

definition Prober_init :: "HASH_INDEX_T \<Rightarrow> HASH_INDEX_T \<Rightarrow> 'k \<Rightarrow> Prober" where
  "Prober_init start m key = \<lparr>prober_start = start, prober_m = m, prober_numProbes = 0\<rparr>"

text \<open>\<open>next()\<close> returns the location and the updated prober.\<close>

definition LinearProber_next :: "Prober \<Rightarrow> HASH_INDEX_T \<times> Prober" where
  "LinearProber_next p =
     (if prober_numProbes p \<ge> prober_m p then (npos, p)
      else ((prober_start p + prober_numProbes p) mod prober_m p, p\<lparr>prober_numProbes := prober_numProbes p + 1\<rparr>))"

definition DOUBLE_HASH_MOD_VALUES :: "HASH_INDEX_T list" where
  "DOUBLE_HASH_MOD_VALUES =
     [7, 19, 43, 89, 193, 389, 787, 1583, 3191, 6397, 12841, 25703, 51431, 102871,
      205721, 411503, 823051, 1646221, 3292463, 6584957, 13169963, 26339921, 52679927,
      105359939, 210719881, 421439749, 842879563, 1685759113]"

definition DOUBLE_HASH_MOD_SIZE :: nat where
  "DOUBLE_HASH_MOD_SIZE = length DOUBLE_HASH_MOD_VALUES"

text \<open>
  \<open>findModulusToUseFromTableSize\<close>: the loop over \<open>i\<close>. At \<open>i = 0\<close> the source reads
  \<open>DOUBLE_HASH_MOD_VALUES[-1]\<close>, outside the array: \<open>OutOfBounds\<close>.
\<close>

function findModulus_loop :: "nat \<Rightarrow> HASH_INDEX_T \<Rightarrow> error + HASH_INDEX_T" where
  "findModulus_loop i currTableSize =
     (if i < DOUBLE_HASH_MOD_SIZE
      then (if DOUBLE_HASH_MOD_VALUES ! i \<ge> currTableSize
            then (if i = 0 then Inl OutOfBounds else Inr (DOUBLE_HASH_MOD_VALUES ! (i - 1)))
            else findModulus_loop (i + 1) currTableSize)
      else Inr (DOUBLE_HASH_MOD_VALUES ! (DOUBLE_HASH_MOD_SIZE - 1)))"
  by pat_completeness auto
termination
  by (relation "measure (\<lambda>(i, currTableSize). DOUBLE_HASH_MOD_SIZE - i)") auto

definition findModulusToUseFromTableSize :: "HASH_INDEX_T \<Rightarrow> error + HASH_INDEX_T" where
  "findModulusToUseFromTableSize currTableSize = findModulus_loop 0 currTableSize"

definition DoubleHashProber_init ::
  "('k \<Rightarrow> HASH_INDEX_T) \<Rightarrow> HASH_INDEX_T \<Rightarrow> HASH_INDEX_T \<Rightarrow> 'k \<Rightarrow> error + DoubleHashProber" where
  "DoubleHashProber_init h2 start m key =
     (case findModulusToUseFromTableSize m of
        Inl e \<Rightarrow> Inl e
      | Inr modulus \<Rightarrow>
          Inr \<lparr>prober_start = start, prober_m = m, prober_numProbes = 0,
               prober_dhstep = modulus - h2 key mod modulus\<rparr>)"

definition DoubleHashProber_next :: "DoubleHashProber \<Rightarrow> HASH_INDEX_T \<times> DoubleHashProber" where
  "DoubleHashProber_next p =
     (if prober_numProbes p \<ge> prober_m p then (npos, p)
      else ((prober_start p + prober_numProbes p * prober_dhstep p) mod prober_m p,
            p\<lparr>prober_numProbes := prober_numProbes p + 1\<rparr>))"

text \<open>The results of the first \<open>n\<close> calls of \<open>next()\<close>, in order.\<close>

fun LinearProber_calls :: "nat \<Rightarrow> Prober \<Rightarrow> HASH_INDEX_T list" where
  "LinearProber_calls 0 p = []"
| "LinearProber_calls (Suc n) p =
     fst (LinearProber_next p) # LinearProber_calls n (snd (LinearProber_next p))"

fun DoubleHashProber_calls :: "nat \<Rightarrow> DoubleHashProber \<Rightarrow> HASH_INDEX_T list" where
  "DoubleHashProber_calls 0 p = []"
| "DoubleHashProber_calls (Suc n) p =
     fst (DoubleHashProber_next p) # DoubleHashProber_calls n (snd (DoubleHashProber_next p))"

section \<open>ht.h: HashTable\<close>

definition CAPACITIES :: "HASH_INDEX_T list" where
  "CAPACITIES =
     [11, 23, 47, 97, 197, 397, 797, 1597, 3203, 6421, 12853, 25717, 51437, 102877,
      205759, 411527, 823117, 1646237, 3292489, 6584983, 13169977, 26339969, 52679969,
      105359969, 210719881, 421439783, 842879579, 1685759167]"

record ('k, 'v) HashItem =
  item :: "'k \<times> 'v"
  deleted :: bool

text \<open>
  The template parameter \<open>Prober\<close> is one of the two probers; \<open>DoubleHashProber\<close> carries
  its secondary hash \<open>h2_\<close>. The member \<open>prober_\<close> is \<open>mutable\<close>, but every \<open>probe\<close>
  starts with \<open>prober_.init\<close>, which overwrites all of its fields: the prober's state is local
  to one call of \<open>probe\<close> and is not part of the table's state between calls.
\<close>

datatype 'k ProberChoice = UseLinearProber | UseDoubleHashProber "'k \<Rightarrow> HASH_INDEX_T"

datatype ProberState = LinearState Prober | DoubleHashState DoubleHashProber

fun prober_init ::
  "'k ProberChoice \<Rightarrow> HASH_INDEX_T \<Rightarrow> HASH_INDEX_T \<Rightarrow> 'k \<Rightarrow> error + ProberState" where
  "prober_init UseLinearProber start m key = Inr (LinearState (Prober_init start m key))"
| "prober_init (UseDoubleHashProber h2) start m key =
     (case DoubleHashProber_init h2 start m key of
        Inl e \<Rightarrow> Inl e
      | Inr p \<Rightarrow> Inr (DoubleHashState p))"

fun prober_next :: "ProberState \<Rightarrow> HASH_INDEX_T \<times> ProberState" where
  "prober_next (LinearState p) =
     (fst (LinearProber_next p), LinearState (snd (LinearProber_next p)))"
| "prober_next (DoubleHashState p) =
     (fst (DoubleHashProber_next p), DoubleHashState (snd (DoubleHashProber_next p)))"

fun probes_left :: "ProberState \<Rightarrow> nat" where
  "probes_left (LinearState p) = unat (prober_m p) - unat (prober_numProbes p)"
| "probes_left (DoubleHashState p) = unat (prober_m p) - unat (prober_numProbes p)"

fun prober_capacity :: "ProberState \<Rightarrow> HASH_INDEX_T" where
  "prober_capacity (LinearState p) = prober_m p"
| "prober_capacity (DoubleHashState p) = prober_m p"

text \<open>
  The members of \<open>HashTable\<close>: \<open>table_\<close> (a null pointer is \<open>None\<close>), \<open>hash_\<close>,
  \<open>kequal_\<close>, \<open>prober_\<close> and \<open>mIndex_\<close>, with the prefix \<open>ht_\<close> in place of the trailing
  underscore. \<open>totalProbes_\<close> is never read. \<open>mIndex_\<close> stays below 28, so it is a \<open>nat\<close>.
\<close>

record ('k, 'v) HashTable =
  ht_table :: "('k, 'v) HashItem option list"
  ht_hash :: "'k \<Rightarrow> HASH_INDEX_T"
  ht_kequal :: "'k \<Rightarrow> 'k \<Rightarrow> bool"
  ht_prober :: "'k ProberChoice"
  ht_mIndex :: nat

text \<open>The constructor takes \<open>resizeAlpha\<close> and does not store it.\<close>

definition HashTable_new ::
  "real \<Rightarrow> 'k ProberChoice \<Rightarrow> ('k \<Rightarrow> HASH_INDEX_T) \<Rightarrow> ('k \<Rightarrow> 'k \<Rightarrow> bool) \<Rightarrow> ('k, 'v) HashTable" where
  "HashTable_new resizeAlpha prober hash kequal =
     \<lparr>ht_table = replicate (unat (CAPACITIES ! 0)) None,
      ht_hash = hash, ht_kequal = kequal, ht_prober = prober, ht_mIndex = 0\<rparr>"

definition live :: "('k, 'v) HashItem option \<Rightarrow> bool" where
  "live s = (case s of None \<Rightarrow> False | Some hi \<Rightarrow> \<not> deleted hi)"

definition HashTable_size :: "('k, 'v) HashTable \<Rightarrow> nat" where
  "HashTable_size t = length (filter live (ht_table t))"

definition HashTable_empty :: "('k, 'v) HashTable \<Rightarrow> bool" where
  "HashTable_empty t = (\<not> list_ex live (ht_table t))"

text \<open>
  The loop of \<open>probe\<close>. \<open>freed\<close> is the set of indices of \<open>table_\<close> whose \<open>HashItem\<close> has
  been deleted while the pointer is still in the array; it is empty except inside \<open>resize\<close>.
  The source tests \<open>table_[loc] == nullptr\<close> first and dereferences the pointer only then.
\<close>

function probe_loop ::
  "nat set \<Rightarrow> ('k, 'v) HashTable \<Rightarrow> 'k \<Rightarrow> ProberState \<Rightarrow> error + HASH_INDEX_T" where
  "probe_loop freed t key p =
     (let loc = fst (prober_next p) in
      if loc = npos then Inr npos
      else if unat loc \<ge> length (ht_table t) then Inl OutOfBounds
      else (case ht_table t ! unat loc of
              None \<Rightarrow> Inr loc
            | Some hi \<Rightarrow>
                if unat loc \<in> freed then Inl UseAfterFree
                else if deleted hi \<or> ht_kequal t (fst (item hi)) key then Inr loc
                else probe_loop freed t key (snd (prober_next p))))"
  by pat_completeness auto

termination probe_loop
proof (relation "measure (\<lambda>(freed, t, key, p). probes_left p)")
  show "wf (measure (\<lambda>(freed, t, key, p). probes_left p))"
    by simp
next
  fix freed :: "nat set" and t :: "('k, 'v) HashTable" and key :: 'k and p loc hi
  assume "loc = fst (prober_next p)" and "loc \<noteq> npos"
  then have more: "fst (prober_next p) \<noteq> npos"
    by simp
  have succ: "unat (n + 1) = Suc (unat n)" if "n < m" for n m :: "64 word"
  proof -
    have "unat n < unat m"
      using that by (simp add: word_less_nat_alt)
    moreover have "unat m < 2 ^ 64"
      using unsigned_less [of m, where 'a = nat] by simp
    ultimately have "unat n + 1 < 2 ^ 64"
      by linarith
    then show ?thesis
      by (simp add: unat_word_ariths)
  qed
  have "probes_left (snd (prober_next p)) < probes_left p"
  proof (cases p)
    case (LinearState q)
    with more have lt: "prober_numProbes q < prober_m q"
      by (auto simp: LinearProber_next_def split: if_splits)
    then have "unat (prober_numProbes q) < unat (prober_m q)"
      by (simp add: word_less_nat_alt)
    moreover have "\<not> prober_m q \<le> prober_numProbes q"
      using lt by simp
    ultimately show ?thesis
      using LinearState by (simp add: LinearProber_next_def succ [OF lt])
  next
    case (DoubleHashState q)
    with more have lt: "prober_numProbes q < prober_m q"
      by (auto simp: DoubleHashProber_next_def split: if_splits)
    then have "unat (prober_numProbes q) < unat (prober_m q)"
      by (simp add: word_less_nat_alt)
    moreover have "\<not> prober_m q \<le> prober_numProbes q"
      using lt by simp
    ultimately show ?thesis
      using DoubleHashState by (simp add: DoubleHashProber_next_def succ [OF lt])
  qed
  then show "((freed, t, key, snd (prober_next p)), (freed, t, key, p))
               \<in> measure (\<lambda>(freed, t, key, p). probes_left p)"
    by simp
qed

text \<open>
  \<open>probe\<close>. \<open>CAPACITIES[mIndex_]\<close> is read first; an \<open>mIndex_\<close> outside the ladder
  (which no operation produces) would be a read outside the array.
\<close>

definition HashTable_probe ::
  "nat set \<Rightarrow> ('k, 'v) HashTable \<Rightarrow> 'k \<Rightarrow> error + HASH_INDEX_T" where
  "HashTable_probe freed t key =
     (if ht_mIndex t < length CAPACITIES
      then (let h = ht_hash t key mod (CAPACITIES ! ht_mIndex t) in
            case prober_init (ht_prober t) h (CAPACITIES ! ht_mIndex t) key of
              Inl e \<Rightarrow> Inl e
            | Inr p \<Rightarrow> probe_loop freed t key p)
      else Inl OutOfBounds)"

text \<open>
  \<open>resize\<close>. The loop \<open>for (auto& item : table_)\<close> visits the indices of the old array in
  order. \<open>probe\<close> is called while \<open>table_\<close> and \<open>mIndex_\<close> are still the old ones, and
  its result indexes \<open>newTable\<close>. \<open>delete item\<close> on a tombstone leaves the pointer in
  \<open>table_\<close>: the index joins \<open>freed\<close>, and a later \<open>probe\<close> of the same loop that reads
  through it is a use after free. \<open>delete\<close> of a null pointer does nothing.
\<close>

fun resize_loop ::
  "nat list \<Rightarrow> nat set \<Rightarrow> ('k, 'v) HashTable \<Rightarrow> ('k, 'v) HashItem option list
     \<Rightarrow> error + ('k, 'v) HashItem option list" where
  "resize_loop [] freed t newTable = Inr newTable"
| "resize_loop (i # rest) freed t newTable =
     (case ht_table t ! i of
        None \<Rightarrow> resize_loop rest freed t newTable
      | Some hi \<Rightarrow>
          if \<not> deleted hi
          then (case HashTable_probe freed t (fst (item hi)) of
                  Inl e \<Rightarrow> Inl e
                | Inr index \<Rightarrow>
                    if unat index < length newTable
                    then resize_loop rest freed t (newTable[unat index := Some hi])
                    else Inl OutOfBounds)
          else resize_loop rest (insert i freed) t newTable)"

definition HashTable_resize :: "('k, 'v) HashTable \<Rightarrow> error + ('k, 'v) HashTable" where
  "HashTable_resize t =
     (let newIdx = ht_mIndex t + 1 in
      if newIdx \<ge> length CAPACITIES then Inl CapacityExhausted
      else (case resize_loop [0..<length (ht_table t)] {} t
                   (replicate (unat (CAPACITIES ! newIdx)) None) of
              Inl e \<Rightarrow> Inl e
            | Inr newTable \<Rightarrow> Inr (t\<lparr>ht_table := newTable, ht_mIndex := newIdx\<rparr>)))"

text \<open>
  The test of \<open>insert\<close>: \<open>size() / static_cast<double>(CAPACITIES[mIndex_]) >= 0.4\<close>, with
  the literal \<open>0.4\<close>. It is taken over the reals. For a capacity \<open>c\<close> of the ladder this is
  what the \<open>double\<close> comparison computes: no \<open>c\<close> is a multiple of 5, so \<open>n / c\<close> differs
  from \<open>2 / 5\<close> by at least \<open>1 / (5 * c) > 10\<^sup>-\<^sup>1\<^sup>0\<close>, far more than the rounding of the
  division and of the literal (below \<open>10\<^sup>-\<^sup>1\<^sup>5\<close>).
\<close>

definition load_factor_reached :: "nat \<Rightarrow> HASH_INDEX_T \<Rightarrow> bool" where
  "load_factor_reached n c = (real n / real (unat c) \<ge> 0.4)"

text \<open>
  \<open>insert\<close>. After the optional \<open>resize\<close>, \<open>probe\<close> gives the index; a null slot gets a
  new \<open>HashItem\<close>, any other slot keeps its key (\<open>item.first\<close>) and gets the value and
  \<open>deleted = false\<close>. \<open>probe\<close> returns \<open>npos\<close> or an index inside \<open>table_\<close>
  (\<open>probe_loop\<close> checks it).
\<close>

definition HashTable_insert ::
  "'k \<times> 'v \<Rightarrow> ('k, 'v) HashTable \<Rightarrow> error + ('k, 'v) HashTable" where
  "HashTable_insert p t =
     (if ht_mIndex t < length CAPACITIES
      then (case (if load_factor_reached (HashTable_size t) (CAPACITIES ! ht_mIndex t)
                  then HashTable_resize t else Inr t) of
              Inl e \<Rightarrow> Inl e
            | Inr t1 \<Rightarrow>
                (case HashTable_probe {} t1 (fst p) of
                   Inl e \<Rightarrow> Inl e
                 | Inr index \<Rightarrow>
                     if index = npos then Inl ProbeExhausted
                     else (case ht_table t1 ! unat index of
                             None \<Rightarrow>
                               Inr (t1\<lparr>ht_table := (ht_table t1)
                                      [unat index := Some \<lparr>item = p, deleted = False\<rparr>]\<rparr>)
                           | Some hi \<Rightarrow>
                               Inr (t1\<lparr>ht_table := (ht_table t1)
                                      [unat index :=
                                         Some (hi\<lparr>item := (fst (item hi), snd p),
                                                  deleted := False\<rparr>)]\<rparr>))))
      else Inl OutOfBounds)"

definition HashTable_remove :: "'k \<Rightarrow> ('k, 'v) HashTable \<Rightarrow> error + ('k, 'v) HashTable" where
  "HashTable_remove key t =
     (case HashTable_probe {} t key of
        Inl e \<Rightarrow> Inl e
      | Inr index \<Rightarrow>
          if index = npos then Inr t
          else (case ht_table t ! unat index of
                  None \<Rightarrow> Inr t
                | Some hi \<Rightarrow>
                    Inr (t\<lparr>ht_table := (ht_table t)
                           [unat index := Some (hi\<lparr>deleted := True\<rparr>)]\<rparr>)))"

text \<open>\<open>find\<close> returns a pointer to the stored pair, or null: the pair, or \<open>None\<close>.\<close>

definition HashTable_find :: "'k \<Rightarrow> ('k, 'v) HashTable \<Rightarrow> error + ('k \<times> 'v) option" where
  "HashTable_find key t =
     (case HashTable_probe {} t key of
        Inl e \<Rightarrow> Inl e
      | Inr index \<Rightarrow>
          if index = npos then Inr None
          else (case ht_table t ! unat index of
                  None \<Rightarrow> Inr None
                | Some hi \<Rightarrow> if deleted hi then Inr None else Inr (Some (item hi))))"

definition HashTable_at :: "'k \<Rightarrow> ('k, 'v) HashTable \<Rightarrow> error + 'v" where
  "HashTable_at key t =
     (case HashTable_find key t of
        Inl e \<Rightarrow> Inl e
      | Inr None \<Rightarrow> Inl KeyNotFound
      | Inr (Some it) \<Rightarrow> Inr (snd it))"

text \<open>
  Sequences of public operations. A run stops at the first operation that does not return
  normally. A caller that catches the exception goes on from a state that a run of returning
  operations reaches as well: \<open>at\<close> and a \<open>resize\<close> at the end of the ladder throw before they
  change anything, and an \<open>insert\<close> whose \<open>probe\<close> finds no location leaves the table as
  it was, or as its own \<open>resize\<close> left it.
\<close>

datatype ('k, 'v) operation =
    Insert "'k \<times> 'v"
  | Remove 'k
  | Find 'k
  | At 'k
  | Resize

fun step :: "('k, 'v) operation \<Rightarrow> ('k, 'v) HashTable \<Rightarrow> error + ('k, 'v) HashTable" where
  "step (Insert p) t = HashTable_insert p t"
| "step (Remove key) t = HashTable_remove key t"
| "step (Find key) t = (case HashTable_find key t of Inl e \<Rightarrow> Inl e | Inr r \<Rightarrow> Inr t)"
| "step (At key) t = (case HashTable_at key t of Inl e \<Rightarrow> Inl e | Inr v \<Rightarrow> Inr t)"
| "step Resize t = HashTable_resize t"

fun run :: "('k, 'v) operation list \<Rightarrow> ('k, 'v) HashTable \<Rightarrow> error + ('k, 'v) HashTable" where
  "run [] t = Inr t"
| "run (op # ops) t = (case step op t of Inl e \<Rightarrow> Inl e | Inr t' \<Rightarrow> run ops t')"

text \<open>
  Reads through deleted pointers that return. In \<open>run\<close> a read through a pointer that
  \<open>resize\<close> has already deleted ends the run (\<open>UseAfterFree\<close>); a compiled program usually
  reads whatever the freed memory holds and goes on. The second model of \<open>resize\<close> follows
  such executions: \<open>stale freed i\<close> is the \<open>HashItem\<close> that a read through the deleted pointer
  in slot \<open>i\<close> yields once the slots in \<open>freed\<close> have been deleted, and it is arbitrary.
  \<open>table_as_read\<close> is the old array as \<open>probe\<close> then reads it; a null slot stays null.
  Everything else is as in \<open>resize\<close>, \<open>insert\<close> and \<open>run\<close>; each operation of a run comes
  with the \<open>stale\<close> of its own \<open>resize\<close>. A \<open>probe\<close> that returns \<open>npos\<close> inside
  \<open>resize\<close> makes it write outside \<open>newTable\<close>, which stays \<open>OutOfBounds\<close>.
\<close>

type_synonym ('k, 'v) stale_reads = "nat set \<Rightarrow> nat \<Rightarrow> ('k, 'v) HashItem"

definition table_as_read ::
  "('k, 'v) stale_reads \<Rightarrow> nat set \<Rightarrow> ('k, 'v) HashTable \<Rightarrow> ('k, 'v) HashTable" where
  "table_as_read stale freed t =
     t\<lparr>ht_table :=
         map (\<lambda>i. case ht_table t ! i of
                    None \<Rightarrow> None
                  | Some hi \<Rightarrow> if i \<in> freed then Some (stale freed i) else Some hi)
           [0..<length (ht_table t)]\<rparr>"

fun resize_loop_stale ::
  "('k, 'v) stale_reads \<Rightarrow> nat list \<Rightarrow> nat set \<Rightarrow> ('k, 'v) HashTable
     \<Rightarrow> ('k, 'v) HashItem option list \<Rightarrow> error + ('k, 'v) HashItem option list" where
  "resize_loop_stale stale [] freed t newTable = Inr newTable"
| "resize_loop_stale stale (i # rest) freed t newTable =
     (case ht_table t ! i of
        None \<Rightarrow> resize_loop_stale stale rest freed t newTable
      | Some hi \<Rightarrow>
          if \<not> deleted hi
          then (case HashTable_probe {} (table_as_read stale freed t) (fst (item hi)) of
                  Inl e \<Rightarrow> Inl e
                | Inr index \<Rightarrow>
                    if unat index < length newTable
                    then resize_loop_stale stale rest freed t (newTable[unat index := Some hi])
                    else Inl OutOfBounds)
          else resize_loop_stale stale rest (insert i freed) t newTable)"

definition HashTable_resize_stale ::
  "('k, 'v) stale_reads \<Rightarrow> ('k, 'v) HashTable \<Rightarrow> error + ('k, 'v) HashTable" where
  "HashTable_resize_stale stale t =
     (let newIdx = ht_mIndex t + 1 in
      if newIdx \<ge> length CAPACITIES then Inl CapacityExhausted
      else (case resize_loop_stale stale [0..<length (ht_table t)] {} t
                   (replicate (unat (CAPACITIES ! newIdx)) None) of
              Inl e \<Rightarrow> Inl e
            | Inr newTable \<Rightarrow> Inr (t\<lparr>ht_table := newTable, ht_mIndex := newIdx\<rparr>)))"

definition HashTable_insert_stale ::
  "('k, 'v) stale_reads \<Rightarrow> 'k \<times> 'v \<Rightarrow> ('k, 'v) HashTable \<Rightarrow> error + ('k, 'v) HashTable" where
  "HashTable_insert_stale stale p t =
     (if ht_mIndex t < length CAPACITIES
      then (case (if load_factor_reached (HashTable_size t) (CAPACITIES ! ht_mIndex t)
                  then HashTable_resize_stale stale t else Inr t) of
              Inl e \<Rightarrow> Inl e
            | Inr t1 \<Rightarrow>
                (case HashTable_probe {} t1 (fst p) of
                   Inl e \<Rightarrow> Inl e
                 | Inr index \<Rightarrow>
                     if index = npos then Inl ProbeExhausted
                     else (case ht_table t1 ! unat index of
                             None \<Rightarrow>
                               Inr (t1\<lparr>ht_table := (ht_table t1)
                                      [unat index := Some \<lparr>item = p, deleted = False\<rparr>]\<rparr>)
                           | Some hi \<Rightarrow>
                               Inr (t1\<lparr>ht_table := (ht_table t1)
                                      [unat index :=
                                         Some (hi\<lparr>item := (fst (item hi), snd p),
                                                  deleted := False\<rparr>)]\<rparr>))))
      else Inl OutOfBounds)"

fun step_stale ::
  "('k, 'v) stale_reads \<Rightarrow> ('k, 'v) operation \<Rightarrow> ('k, 'v) HashTable
     \<Rightarrow> error + ('k, 'v) HashTable" where
  "step_stale stale (Insert p) t = HashTable_insert_stale stale p t"
| "step_stale stale (Remove key) t = step (Remove key) t"
| "step_stale stale (Find key) t = step (Find key) t"
| "step_stale stale (At key) t = step (At key) t"
| "step_stale stale Resize t = HashTable_resize_stale stale t"

fun run_stale ::
  "(('k, 'v) operation \<times> ('k, 'v) stale_reads) list \<Rightarrow> ('k, 'v) HashTable
     \<Rightarrow> error + ('k, 'v) HashTable" where
  "run_stale [] t = Inr t"
| "run_stale (os # rest) t =
     (case step_stale (snd os) (fst os) t of Inl e \<Rightarrow> Inl e | Inr t' \<Rightarrow> run_stale rest t')"

section \<open>Notions of the specification\<close>

text \<open>
  The class invariant of \<open>HashTable\<close>: \<open>mIndex_\<close> is an index of the ladder and \<open>table_\<close>
  has the capacity \<open>CAPACITIES[mIndex_]\<close>.
\<close>

definition HashTable_invariant :: "('k, 'v) HashTable \<Rightarrow> bool" where
  "HashTable_invariant t =
     (ht_mIndex t < length CAPACITIES
      \<and> length (ht_table t) = unat (CAPACITIES ! ht_mIndex t))"

text \<open>The current capacity, \<open>CAPACITIES[mIndex_]\<close>, as a number.\<close>

definition capacity :: "('k, 'v) HashTable \<Rightarrow> nat" where
  "capacity t = unat (CAPACITIES ! ht_mIndex t)"

text \<open>
  \<open>v\<close> is the largest value of \<open>DOUBLE_HASH_MOD_VALUES\<close> strictly below \<open>m\<close>.
\<close>

definition largest_ladder_value_below :: "HASH_INDEX_T \<Rightarrow> HASH_INDEX_T \<Rightarrow> bool" where
  "largest_ladder_value_below m v =
     (v \<in> set DOUBLE_HASH_MOD_VALUES \<and> v < m
      \<and> (\<forall>u\<in>set DOUBLE_HASH_MOD_VALUES. u < m \<longrightarrow> u \<le> v))"

text \<open>The number of Occupied (non-null, not deleted) slots whose key equals \<open>key\<close>.\<close>

definition live_slots_holding :: "'k \<Rightarrow> ('k, 'v) HashTable \<Rightarrow> nat" where
  "live_slots_holding key t =
     length (filter (\<lambda>s. case s of None \<Rightarrow> False
                          | Some hi \<Rightarrow> \<not> deleted hi \<and> ht_kequal t (fst (item hi)) key)
               (ht_table t))"

text \<open>
  The table of the examples: \<open>HashTable<size_t, int>\<close> with the default
  \<open>LinearProber\<close>, \<open>std::equal_to\<close> and a hash that returns its argument (as
  \<open>std::hash<size_t>\<close> of libstdc++ does).
\<close>

definition size_t_table :: "real \<Rightarrow> (64 word, int) HashTable" where
  "size_t_table resizeAlpha = HashTable_new resizeAlpha UseLinearProber (\<lambda>k. k) (=)"

text \<open>
  Stale reads for the examples: the freed \<open>HashItem\<close> still reads as deleted (the flag is
  not overwritten), with key and value 0.
\<close>

definition still_deleted :: "(64 word, int) stale_reads" where
  "still_deleted freed i = \<lparr>item = (0, 0), deleted = True\<rparr>"

section \<open>Facts about the model\<close>

text \<open>
  The loops are unfolded by hand, one iteration at a time, in the proofs below.
\<close>

declare computeSubstringValue_loop.simps [simp del]
declare findModulus_loop.simps [simp del]
declare probe_loop.simps [simp del]

subsection \<open>MyStringHash reads one chunk\<close>

text \<open>
  A chunk that ends at or before the start of the string has the value 0, and four of the five
  chunks do: the hash is the last coefficient times the value of the chunk
  \<open>[len % 6 - 6, len % 6)\<close>.
\<close>

lemma computeSubstringValue_loop_before_string:
  "i < 0 \<Longrightarrow> computeSubstringValue_loop k start i val base = val"
proof (induction k start i val base rule: computeSubstringValue_loop.induct)
  case (1 k start i val base)
  show ?case
  proof (cases "start \<le> i")
    case True
    then have "computeSubstringValue_loop k start i val base
        = computeSubstringValue_loop k start (i - 1) val (base * 36)"
      using "1.prems" by (subst computeSubstringValue_loop.simps) simp
    also have "\<dots> = val"
      using "1.IH" [OF True] "1.prems" by simp
    finally show ?thesis .
  next
    case False
    then show ?thesis
      by (subst computeSubstringValue_loop.simps) simp
  qed
qed

lemma computeSubstringValue_before_string:
  "end \<le> 0 \<Longrightarrow> computeSubstringValue k start end = 0"
  by (simp add: computeSubstringValue_def computeSubstringValue_loop_before_string)

lemma MyStringHash_first_chunk_only:
  "MyStringHash k
     = 261934300 * computeSubstringValue k (int (length k) mod 6 - 6) (int (length k) mod 6)"
proof -
  let ?pos = "int (length k) mod 6"
  have "?pos < 6"
    by simp
  then have zero: "computeSubstringValue k (?pos - 12) (?pos - 6) = 0"
    "computeSubstringValue k (?pos - 18) (?pos - 12) = 0"
    "computeSubstringValue k (?pos - 24) (?pos - 18) = 0"
    "computeSubstringValue k (?pos - 30) (?pos - 24) = 0"
    by (simp_all add: computeSubstringValue_before_string)
  have "fill_w k ?pos 5 (replicate 5 0)
      = [0, 0, 0, 0, computeSubstringValue k (?pos - 6) ?pos]"
    using zero by (simp add: numeral_nat(1-3) eval_nat_numeral)
  then show ?thesis
    by (simp add: MyStringHash_def Let_def rValues_def upt_rec numeral_nat(1-3) eval_nat_numeral)
qed

subsection \<open>Modulus selection\<close>


lemma DOUBLE_HASH_MOD_VALUES_sorted: "sorted DOUBLE_HASH_MOD_VALUES"
  by (simp add: DOUBLE_HASH_MOD_VALUES_def)

lemma DOUBLE_HASH_MOD_SIZE_eq: "DOUBLE_HASH_MOD_SIZE = 28"
  by (simp add: DOUBLE_HASH_MOD_SIZE_def DOUBLE_HASH_MOD_VALUES_def)

lemma findModulus_loop_largest_below:
  "0 < i \<Longrightarrow> i \<le> DOUBLE_HASH_MOD_SIZE \<Longrightarrow> (\<forall>j<i. DOUBLE_HASH_MOD_VALUES ! j < m) \<Longrightarrow>
   \<exists>v. findModulus_loop i m = Inr v \<and> v \<in> set DOUBLE_HASH_MOD_VALUES \<and> v < m
       \<and> (\<forall>u\<in>set DOUBLE_HASH_MOD_VALUES. u < m \<longrightarrow> u \<le> v)"
proof (induction i m rule: findModulus_loop.induct)
  case (1 i m)
  let ?V = DOUBLE_HASH_MOD_VALUES
  have len: "length ?V = DOUBLE_HASH_MOD_SIZE"
    by (simp add: DOUBLE_HASH_MOD_SIZE_def)
  have prev: "?V ! (i - 1) < m" "i - 1 < length ?V"
    using "1.prems" len by auto
  have upper: "u \<le> ?V ! (i - 1)" if u_in: "u \<in> set ?V" and u_lt: "u < m"
      and stop: "i < length ?V \<longrightarrow> m \<le> ?V ! i" for u
  proof -
    obtain k where k: "k < length ?V" "u = ?V ! k"
      using u_in by (auto simp: in_set_conv_nth)
    have "k < i"
    proof (rule ccontr)
      assume "\<not> k < i"
      then have "i \<le> k" by simp
      then have "?V ! i \<le> ?V ! k"
        using k(1) DOUBLE_HASH_MOD_VALUES_sorted by (simp add: sorted_nth_mono)
      moreover have "i < length ?V" using \<open>i \<le> k\<close> k(1) by simp
      ultimately show False using u_lt stop k(2) by auto
    qed
    then have "k \<le> i - 1" by simp
    then show ?thesis
      using k(2) prev(2) DOUBLE_HASH_MOD_VALUES_sorted by (simp add: sorted_nth_mono)
  qed
  show ?case
  proof (cases "i < DOUBLE_HASH_MOD_SIZE")
    case inside: True
    show ?thesis
    proof (cases "m \<le> ?V ! i")
      case True
      then have "findModulus_loop i m = Inr (?V ! (i - 1))"
        using inside "1.prems"(1) by (simp add: findModulus_loop.simps [of i m])
      moreover have "\<forall>u\<in>set ?V. u < m \<longrightarrow> u \<le> ?V ! (i - 1)"
        using upper True by blast
      ultimately show ?thesis
        using prev by simp
    next
      case False
      then have eq: "findModulus_loop i m = findModulus_loop (i + 1) m"
        using inside by (simp add: findModulus_loop.simps [of i m])
      have "\<forall>j<i + 1. ?V ! j < m"
        using "1.prems"(3) False by (auto simp: less_Suc_eq)
      then show ?thesis
        using "1.IH" [OF inside False] inside eq by simp
    qed
  next
    case False
    then have i: "i = DOUBLE_HASH_MOD_SIZE"
      using "1.prems"(2) by simp
    have "findModulus_loop i m = Inr (?V ! (DOUBLE_HASH_MOD_SIZE - 1))"
      using False by (subst findModulus_loop.simps) simp
    then have "findModulus_loop i m = Inr (?V ! (i - 1))"
      using i by simp
    moreover have "\<forall>u\<in>set ?V. u < m \<longrightarrow> u \<le> ?V ! (i - 1)"
      using upper i len by simp
    ultimately show ?thesis
      using prev by simp
  qed
qed

lemma findModulus_largest_below:
  assumes "7 < m"
  shows "\<exists>v. findModulusToUseFromTableSize m = Inr v \<and> v \<in> set DOUBLE_HASH_MOD_VALUES \<and> v < m
       \<and> (\<forall>u\<in>set DOUBLE_HASH_MOD_VALUES. u < m \<longrightarrow> u \<le> v)"
proof -
  have v0: "DOUBLE_HASH_MOD_VALUES ! 0 = 7"
    by (simp add: DOUBLE_HASH_MOD_VALUES_def)
  have "\<not> m \<le> 7"
    using assms by simp
  then have "findModulus_loop 0 m = findModulus_loop 1 m"
    using v0 by (simp add: findModulus_loop.simps [of 0 m] DOUBLE_HASH_MOD_SIZE_eq)
  moreover have "\<forall>j<1. DOUBLE_HASH_MOD_VALUES ! j < m"
    using assms v0 by simp
  ultimately show ?thesis
    using findModulus_loop_largest_below [of 1 m]
    by (simp add: findModulusToUseFromTableSize_def DOUBLE_HASH_MOD_SIZE_eq)
qed

lemma findModulus_out_of_bounds:
  "m \<le> 7 \<Longrightarrow> findModulusToUseFromTableSize m = Inl OutOfBounds"
  by (simp add: findModulusToUseFromTableSize_def findModulus_loop.simps [of 0 m]
      DOUBLE_HASH_MOD_SIZE_eq DOUBLE_HASH_MOD_VALUES_def)

lemma CAPACITIES_above_7: "\<forall>c\<in>set CAPACITIES. 7 < c"
  by (simp add: CAPACITIES_def)

subsection \<open>probe returns on a table that satisfies the class invariant\<close>


lemma prober_next_capacity: "prober_capacity (snd (prober_next p)) = prober_capacity p"
  by (cases p) (simp_all add: LinearProber_next_def DoubleHashProber_next_def)

lemma prober_next_in_range:
  assumes "fst (prober_next p) \<noteq> npos"
  shows "fst (prober_next p) < prober_capacity p"
proof (cases p)
  case (LinearState q)
  with assms have "prober_numProbes q < prober_m q"
    by (auto simp: LinearProber_next_def split: if_splits)
  then have "\<not> prober_m q \<le> prober_numProbes q" and "0 < prober_m q"
    using le_less_trans [OF word_zero_le, of "prober_numProbes q" "prober_m q"] by simp_all
  then show ?thesis
    using LinearState by (simp add: LinearProber_next_def word_mod_less_divisor)
next
  case (DoubleHashState q)
  with assms have "prober_numProbes q < prober_m q"
    by (auto simp: DoubleHashProber_next_def split: if_splits)
  then have "\<not> prober_m q \<le> prober_numProbes q" and "0 < prober_m q"
    using le_less_trans [OF word_zero_le, of "prober_numProbes q" "prober_m q"] by simp_all
  then show ?thesis
    using DoubleHashState by (simp add: DoubleHashProber_next_def word_mod_less_divisor)
qed

lemma probe_loop_in_range:
  "probe_loop freed t key p = Inr loc \<Longrightarrow> loc = npos \<or> unat loc < length (ht_table t)"
proof (induction freed t key p rule: probe_loop.induct)
  case (1 freed t key p)
  show ?case
    using "1.prems" "1.IH"
    by (subst (asm) probe_loop.simps) (auto simp: Let_def split: if_splits option.splits)
qed

lemma probe_loop_returns:
  "unat (prober_capacity p) \<le> length (ht_table t) \<Longrightarrow> \<exists>loc. probe_loop {} t key p = Inr loc"
proof (induction "{} :: nat set" t key p rule: probe_loop.induct)
  case (1 t key p)
  let ?loc = "fst (prober_next p)"
  show ?case
  proof (cases "?loc = npos")
    case True
    then show ?thesis
      by (subst probe_loop.simps) simp
  next
    case False
    then have "?loc < prober_capacity p"
      by (rule prober_next_in_range)
    then have inside: "unat ?loc < length (ht_table t)"
      using "1.prems" by (simp add: word_less_nat_alt)
    show ?thesis
    proof (cases "ht_table t ! unat ?loc")
      case None
      then show ?thesis
        using False inside by (subst probe_loop.simps) simp
    next
      case (Some hi)
      show ?thesis
      proof (cases "deleted hi \<or> ht_kequal t (fst (item hi)) key")
        case True
        then show ?thesis
          using False inside Some by (subst probe_loop.simps) auto
      next
        case stop: False
        have "\<exists>loc. probe_loop {} t key (snd (prober_next p)) = Inr loc"
          using "1.hyps" [OF refl False _ Some _ stop] inside "1.prems"
          by (simp add: prober_next_capacity)
        then show ?thesis
          using False inside Some stop by (subst probe_loop.simps) auto
      qed
    qed
  qed
qed

lemma prober_init_returns:
  assumes "7 < m"
  shows "\<exists>p. prober_init c start m key = Inr p \<and> prober_capacity p = m"
proof (cases c)
  case UseLinearProber
  then show ?thesis
    by (simp add: Prober_init_def)
next
  case (UseDoubleHashProber h2)
  obtain v where "findModulusToUseFromTableSize m = Inr v"
    using findModulus_largest_below [OF assms] by blast
  then show ?thesis
    using UseDoubleHashProber by (simp add: DoubleHashProber_init_def)
qed

lemma HashTable_probe_returns:
  assumes "HashTable_invariant t"
  shows "\<exists>loc. HashTable_probe {} t key = Inr loc"
proof -
  let ?cap = "CAPACITIES ! ht_mIndex t"
  have idx: "ht_mIndex t < length CAPACITIES" and len: "length (ht_table t) = unat ?cap"
    using assms by (simp_all add: HashTable_invariant_def)
  then have "?cap \<in> set CAPACITIES"
    by simp
  then have "7 < ?cap"
    using CAPACITIES_above_7 by blast
  from prober_init_returns [OF this, where c = "ht_prober t"
      and start = "ht_hash t key mod ?cap" and key = key]
  obtain p where p: "prober_init (ht_prober t) (ht_hash t key mod ?cap) ?cap key = Inr p"
      "prober_capacity p = ?cap"
    by blast
  then have "\<exists>loc. probe_loop {} t key p = Inr loc"
    using len by (simp add: probe_loop_returns)
  then show ?thesis
    using idx p(1) by (simp add: HashTable_probe_def)
qed

subsection \<open>Probe sequences\<close>

text \<open>
  The arithmetic behind both probers: for a step coprime to \<open>M\<close>, the map
  \<open>j \<mapsto> (S + j * d) mod M\<close> is a bijection on \<open>{0..<M}\<close>.
\<close>

lemma probe_indices_inj:
  fixes S d M :: nat
  assumes "coprime d M"
  shows "inj_on (\<lambda>j. (S + j * d) mod M) {0..<M}"
proof -
  have strict: False
    if "j < j'" "j' < M" "(S + j * d) mod M = (S + j' * d) mod M" for j j'
  proof -
    have le: "S + j * d \<le> S + j' * d"
      using that(1) by simp
    have "M dvd (S + j' * d) - (S + j * d)"
      using that(3) [symmetric] mod_eq_dvd_iff_nat [OF le, of M] by blast
    moreover have "(S + j' * d) - (S + j * d) = (j' - j) * d"
      by (simp add: diff_mult_distrib)
    ultimately have "M dvd (j' - j) * d"
      by simp
    then have "M dvd j' - j"
      using assms by (simp add: coprime_dvd_mult_left_iff coprime_commute)
    moreover have "0 < j' - j" "j' - j < M"
      using that(1,2) by simp_all
    ultimately show False
      using nat_dvd_not_less by blast
  qed
  show ?thesis
  proof (rule inj_onI)
    fix x y
    assume "x \<in> {0..<M}" "y \<in> {0..<M}" "(S + x * d) mod M = (S + y * d) mod M"
    then show "x = y"
      using strict [of x y] strict [of y x] by (cases x y rule: linorder_cases) auto
  qed
qed

lemma probe_indices_cover:
  fixes S d M :: nat
  assumes "coprime d M"
  shows "(\<lambda>j. (S + j * d) mod M) ` {0..<M} = {0..<M}"
proof (cases "M = 0")
  case True
  then show ?thesis by simp
next
  case False
  have "(\<lambda>j. (S + j * d) mod M) ` {0..<M} \<subseteq> {0..<M}"
    using False by auto
  moreover have "card ((\<lambda>j. (S + j * d) mod M) ` {0..<M}) = card {0..<M}"
    using probe_indices_inj [OF assms] by (rule card_image)
  ultimately show ?thesis
    by (simp add: card_subset_eq)
qed

lemma word_of_nat_below:
  fixes m :: "64 word"
  shows "word_of_nat ` {0..<unat m} = {loc. loc < m}"
proof (rule set_eqI)
  fix loc :: "64 word"
  show "loc \<in> word_of_nat ` {0..<unat m} \<longleftrightarrow> loc \<in> {loc. loc < m}"
  proof
    assume "loc \<in> word_of_nat ` {0..<unat m}"
    then obtain r where r: "r < unat m" "loc = word_of_nat r"
      by auto
    moreover have "unat m < 2 ^ 64"
      using unsigned_less [of m, where 'a = nat] by simp
    ultimately have "unat loc = r"
      by (simp add: le_unat_uoi [of r m])
    then show "loc \<in> {loc. loc < m}"
      using r(1) by (simp add: word_less_nat_alt)
  next
    assume "loc \<in> {loc. loc < m}"
    then have "unat loc < unat m"
      by (simp add: word_less_nat_alt)
    moreover have "word_of_nat (unat loc) = loc"
      by simp
    ultimately show "loc \<in> word_of_nat ` {0..<unat m}"
      by (metis atLeastLessThan_iff image_eqI zero_le)
  qed
qed

lemma word_of_nat_inj_below:
  fixes m :: "64 word"
  shows "inj_on (word_of_nat :: nat \<Rightarrow> 64 word) {0..<unat m}"
proof (rule inj_onI)
  fix x y
  assume x: "x \<in> {0..<unat m}" and y: "y \<in> {0..<unat m}"
    and eq: "(word_of_nat x :: 64 word) = word_of_nat y"
  have ux: "unat (word_of_nat x :: 64 word) = x"
    using x by (intro le_unat_uoi [of x m]) simp
  have uy: "unat (word_of_nat y :: 64 word) = y"
    using y by (intro le_unat_uoi [of y m]) simp
  have "unat (word_of_nat x :: 64 word) = unat (word_of_nat y :: 64 word)"
    using eq by (rule arg_cong)
  then show "x = y"
    by (simp only: ux uy)
qed

lemma LinearProber_calls_exhausted:
  "prober_numProbes p = prober_m p \<Longrightarrow> LinearProber_calls j p = replicate j npos"
  by (induction j) (simp_all add: LinearProber_next_def)

lemma word_of_nat_less_capacity:
  fixes m :: "64 word"
  assumes "i < unat m"
  shows "(word_of_nat i :: 64 word) < m" and "unat (word_of_nat i :: 64 word) = i"
proof -
  show u: "unat (word_of_nat i :: 64 word) = i"
    using assms by (intro le_unat_uoi [of i m]) simp
  then show "(word_of_nat i :: 64 word) < m"
    using assms by (simp add: word_less_nat_alt)
qed

lemma LinearProber_calls_prefix:
  fixes start m :: "64 word"
  assumes "unat start + unat m \<le> 2 ^ 64"
  shows "i + k \<le> unat m \<Longrightarrow>
    LinearProber_calls (k + j)
       \<lparr>prober_start = start, prober_m = m, prober_numProbes = word_of_nat i\<rparr>
     = map (\<lambda>i. word_of_nat ((unat start + i) mod unat m)) [i..<i + k]
       @ LinearProber_calls j
           \<lparr>prober_start = start, prober_m = m, prober_numProbes = word_of_nat (i + k)\<rparr>"
proof (induction k arbitrary: i)
  case 0
  then show ?case by simp
next
  case (Suc k)
  let ?p = "\<lparr>prober_start = start, prober_m = m, prober_numProbes = word_of_nat i\<rparr>"
  have i: "i < unat m"
    using Suc.prems by simp
  have lt: "(word_of_nat i :: 64 word) < m" and ui: "unat (word_of_nat i :: 64 word) = i"
    using word_of_nat_less_capacity [OF i] by simp_all
  have "unat start + unat (word_of_nat i :: 64 word) < 2 ^ 64"
    using assms i ui by simp
  moreover have "unat (start + word_of_nat i)
      = (unat start + unat (word_of_nat i :: 64 word)) mod 2 ^ 64"
    by (simp add: unat_word_ariths)
  ultimately have "unat (start + word_of_nat i) = unat start + i"
    using ui by simp
  then have "unat ((start + word_of_nat i) mod m) = (unat start + i) mod unat m"
    by (simp add: unat_mod)
  then have loc: "(start + word_of_nat i) mod m = word_of_nat ((unat start + i) mod unat m)"
    using of_nat_unat [of "(start + word_of_nat i) mod m", where 'a = "64 word"] by simp
  have nxt: "LinearProber_next ?p =
      (word_of_nat ((unat start + i) mod unat m),
       \<lparr>prober_start = start, prober_m = m, prober_numProbes = word_of_nat (Suc i)\<rparr>)"
    using lt loc by (simp add: LinearProber_next_def leD)
  have "LinearProber_calls (Suc k + j) ?p
      = word_of_nat ((unat start + i) mod unat m)
        # LinearProber_calls (k + j)
            \<lparr>prober_start = start, prober_m = m, prober_numProbes = word_of_nat (Suc i)\<rparr>"
    using nxt by simp
  also have "\<dots> = word_of_nat ((unat start + i) mod unat m)
        # (map (\<lambda>i. word_of_nat ((unat start + i) mod unat m)) [Suc i..<Suc i + k]
           @ LinearProber_calls j
              \<lparr>prober_start = start, prober_m = m, prober_numProbes = word_of_nat (Suc i + k)\<rparr>)"
    using Suc.IH [of "Suc i"] Suc.prems by simp
  also have "\<dots> = map (\<lambda>i. word_of_nat ((unat start + i) mod unat m)) [i..<i + Suc k]
           @ LinearProber_calls j
              \<lparr>prober_start = start, prober_m = m, prober_numProbes = word_of_nat (i + Suc k)\<rparr>"
    by (subst (2) upt_rec) simp
  finally show ?case .
qed

lemma DoubleHashProber_calls_exhausted:
  "prober_numProbes p = prober_m p \<Longrightarrow> DoubleHashProber_calls j p = replicate j npos"
  by (induction j) (simp_all add: DoubleHashProber_next_def)

lemma DoubleHashProber_calls_prefix:
  fixes start m step :: "64 word"
  assumes "unat start + (unat m - 1) * unat step < 2 ^ 64"
  shows "i + k \<le> unat m \<Longrightarrow>
    DoubleHashProber_calls (k + j)
       \<lparr>prober_start = start, prober_m = m, prober_numProbes = word_of_nat i,
        prober_dhstep = step\<rparr>
     = map (\<lambda>i. word_of_nat ((unat start + i * unat step) mod unat m)) [i..<i + k]
       @ DoubleHashProber_calls j
           \<lparr>prober_start = start, prober_m = m, prober_numProbes = word_of_nat (i + k),
            prober_dhstep = step\<rparr>"
proof (induction k arbitrary: i)
  case 0
  then show ?case by simp
next
  case (Suc k)
  let ?p = "\<lparr>prober_start = start, prober_m = m, prober_numProbes = word_of_nat i,
             prober_dhstep = step\<rparr>"
  let ?loc = "word_of_nat ((unat start + i * unat step) mod unat m) :: 64 word"
  have i: "i < unat m"
    using Suc.prems by simp
  have lt: "(word_of_nat i :: 64 word) < m" and ui: "unat (word_of_nat i :: 64 word) = i"
    using word_of_nat_less_capacity [OF i] by simp_all
  have "i * unat step \<le> (unat m - 1) * unat step"
    using i by (intro mult_le_mono1) simp
  then have bound: "unat start + i * unat step < 2 ^ 64"
    using assms by linarith
  have "unat (word_of_nat i * step) = (unat (word_of_nat i :: 64 word) * unat step) mod 2 ^ 64"
    by (simp add: unat_word_ariths)
  then have prod: "unat (word_of_nat i * step) = i * unat step"
    using ui bound by simp
  have "unat (start + word_of_nat i * step)
      = (unat start + unat (word_of_nat i * step)) mod 2 ^ 64"
    by (simp add: unat_word_ariths)
  then have "unat (start + word_of_nat i * step) = unat start + i * unat step"
    using prod bound by simp
  then have "unat ((start + word_of_nat i * step) mod m) = (unat start + i * unat step) mod unat m"
    by (simp add: unat_mod)
  then have loc: "(start + word_of_nat i * step) mod m = ?loc"
    using of_nat_unat [of "(start + word_of_nat i * step) mod m", where 'a = "64 word"] by simp
  have nxt: "DoubleHashProber_next ?p =
      (?loc, \<lparr>prober_start = start, prober_m = m, prober_numProbes = word_of_nat (Suc i),
               prober_dhstep = step\<rparr>)"
    using lt loc by (simp add: DoubleHashProber_next_def leD)
  have "DoubleHashProber_calls (Suc k + j) ?p
      = ?loc # DoubleHashProber_calls (k + j)
            \<lparr>prober_start = start, prober_m = m, prober_numProbes = word_of_nat (Suc i),
             prober_dhstep = step\<rparr>"
    using nxt by simp
  also have "\<dots> = ?loc
        # (map (\<lambda>i. word_of_nat ((unat start + i * unat step) mod unat m)) [Suc i..<Suc i + k]
           @ DoubleHashProber_calls j
              \<lparr>prober_start = start, prober_m = m, prober_numProbes = word_of_nat (Suc i + k),
               prober_dhstep = step\<rparr>)"
    using Suc.IH [of "Suc i"] Suc.prems by simp
  also have "\<dots> = map (\<lambda>i. word_of_nat ((unat start + i * unat step) mod unat m)) [i..<i + Suc k]
           @ DoubleHashProber_calls j
              \<lparr>prober_start = start, prober_m = m, prober_numProbes = word_of_nat (i + Suc k),
               prober_dhstep = step\<rparr>"
    by (subst (2) upt_rec) simp
  finally show ?case .
qed

lemma DoubleHashProber_init_step:
  assumes "7 < m"
  shows "\<exists>modulus. largest_ladder_value_below m modulus
     \<and> DoubleHashProber_init h start m key
         = Inr \<lparr>prober_start = start, prober_m = m, prober_numProbes = 0,
                prober_dhstep = modulus - h key mod modulus\<rparr>"
  using findModulus_largest_below [OF assms]
  by (auto simp: DoubleHashProber_init_def largest_ladder_value_below_def)

lemma dhstep_bounds:
  fixes modulus h :: "64 word"
  assumes "0 < modulus"
  shows "0 < modulus - h mod modulus" and "modulus - h mod modulus \<le> modulus"
proof -
  have r: "h mod modulus < modulus"
    using assms by (rule word_mod_less_divisor)
  then have le: "h mod modulus \<le> modulus"
    by simp
  show "modulus - h mod modulus \<le> modulus"
    using le by (simp add: word_sub_le)
  show "0 < modulus - h mod modulus"
    using r by (simp add: word_greater_zero_iff)
qed

lemma DoubleHashProber_no_wrap_in_table:
  fixes start m modulus h :: "64 word"
  assumes "largest_ladder_value_below m modulus" and "start < m" and "unat m \<le> 2 ^ 32"
  shows "unat start + (unat m - 1) * unat (modulus - h mod modulus) < 2 ^ 64"
proof -
  have "modulus \<in> set DOUBLE_HASH_MOD_VALUES" and lt: "modulus < m"
    using assms(1) by (simp_all add: largest_ladder_value_below_def)
  then have "0 < modulus"
    by (auto simp: DOUBLE_HASH_MOD_VALUES_def)
  then have "modulus - h mod modulus \<le> modulus"
    by (rule dhstep_bounds)
  then have "unat (modulus - h mod modulus) < unat m"
    using lt by (simp add: word_le_nat_alt word_less_nat_alt)
  then have step: "unat (modulus - h mod modulus) \<le> 2 ^ 32"
    using assms(3) by simp
  have "(unat m - 1) * unat (modulus - h mod modulus) \<le> (2 ^ 32 - 1) * 2 ^ 32"
    using assms(3) step by (intro mult_mono) simp_all
  moreover have "unat start < 2 ^ 32"
    using assms(2,3) by (simp add: word_less_nat_alt)
  ultimately show ?thesis
    by simp
qed

subsection \<open>Occupied slots and the class invariant along a run\<close>

text \<open>
  \<open>insert\<close> adds at most one Occupied slot, \<open>remove\<close> and \<open>resize\<close> add none, and each
  capacity of the ladder exceeds the one before by more than a factor of two.
\<close>

lemma load_factor_reached_iff:
  "c \<noteq> 0 \<Longrightarrow> load_factor_reached n c \<longleftrightarrow> 2 * unat c \<le> 5 * n"
proof -
  assume "c \<noteq> 0"
  then have "0 < unat c"
    by (metis unat_gt_0)
  then have pos: "0 < real (unat c)"
    by (simp only: of_nat_0_less_iff)
  have "load_factor_reached n c \<longleftrightarrow> 4 / 10 * real (unat c) \<le> real n"
    using pos by (simp add: load_factor_reached_def pos_le_divide_eq)
  also have "\<dots> \<longleftrightarrow> real (2 * unat c) \<le> real (5 * n)"
    by (simp add: mult.commute)
  also have "\<dots> \<longleftrightarrow> 2 * unat c \<le> 5 * n"
    by (rule of_nat_le_iff)
  finally show ?thesis .
qed

lemma live_count_update:
  "length (filter live (xs[i := x])) \<le> Suc (length (filter live xs))"
proof (induction xs arbitrary: i)
  case Nil
  then show ?case by simp
next
  case (Cons a xs)
  show ?case
  proof (cases i)
    case 0
    then show ?thesis by simp
  next
    case (Suc j)
    then show ?thesis
      using Cons.IH [of j] by simp
  qed
qed

lemma live_count_update_dead:
  "\<not> live x \<Longrightarrow> length (filter live (xs[i := x])) \<le> length (filter live xs)"
proof (induction xs arbitrary: i)
  case Nil
  then show ?case by simp
next
  case (Cons a xs)
  show ?case
  proof (cases i)
    case 0
    then show ?thesis using Cons.prems by simp
  next
    case (Suc j)
    then show ?thesis
      using Cons.IH [OF Cons.prems, of j] by simp
  qed
qed

lemma resize_loop_counts:
  "resize_loop idxs freed t newTable = Inr newTable' \<Longrightarrow>
   length newTable' = length newTable
   \<and> length (filter live newTable')
       \<le> length (filter live newTable) + length (filter live (map ((!) (ht_table t)) idxs))"
proof (induction idxs arbitrary: freed newTable)
  case Nil
  then show ?case by simp
next
  case (Cons i rest)
  show ?case
  proof (cases "ht_table t ! i")
    case None
    then show ?thesis
      using Cons.prems Cons.IH [of freed newTable] by (simp add: live_def)
  next
    case (Some hi)
    show ?thesis
    proof (cases "deleted hi")
      case True
      then show ?thesis
        using Some Cons.prems Cons.IH [of "insert i freed" newTable] by (simp add: live_def)
    next
      case False
      then obtain index where index: "HashTable_probe freed t (fst (item hi)) = Inr index"
        "unat index < length newTable"
        "resize_loop rest freed t (newTable[unat index := Some hi]) = Inr newTable'"
        using Some Cons.prems by (auto split: sum.splits if_splits)
      have "length (filter live (newTable[unat index := Some hi]))
          \<le> Suc (length (filter live newTable))"
        by (rule live_count_update)
      moreover have "live (ht_table t ! i)"
        using Some False by (simp add: live_def)
      ultimately show ?thesis
        using Cons.IH [OF index(3)] by simp
    qed
  qed
qed

lemma HashTable_resize_result:
  assumes "HashTable_resize t = Inr t'"
  shows "ht_mIndex t' = ht_mIndex t + 1" and "ht_mIndex t' < length CAPACITIES"
    and "length (ht_table t') = unat (CAPACITIES ! ht_mIndex t')"
    and "HashTable_size t' \<le> HashTable_size t"
proof -
  from assms obtain newTable where
    idx: "ht_mIndex t + 1 < length CAPACITIES"
    and loop: "resize_loop [0..<length (ht_table t)] {} t
         (replicate (unat (CAPACITIES ! (ht_mIndex t + 1))) None) = Inr newTable"
    and t': "t' = t\<lparr>ht_table := newTable, ht_mIndex := ht_mIndex t + 1\<rparr>"
    by (auto simp: HashTable_resize_def Let_def split: if_splits sum.splits)
  show "ht_mIndex t' = ht_mIndex t + 1" and "ht_mIndex t' < length CAPACITIES"
    using idx t' by simp_all
  have none: "filter live (replicate n None) = []" for n :: nat
    by (simp add: live_def)
  have "length newTable = unat (CAPACITIES ! (ht_mIndex t + 1))"
    and "length (filter live newTable) \<le> length (filter live (ht_table t))"
    using resize_loop_counts [OF loop] by (simp_all add: none map_nth)
  then show "length (ht_table t') = unat (CAPACITIES ! ht_mIndex t')"
    and "HashTable_size t' \<le> HashTable_size t"
    using t' by (simp_all add: HashTable_size_def)
qed


lemma CAPACITIES_growth:
  assumes "i + 1 < length CAPACITIES"
  shows "2 * unat (CAPACITIES ! i) + 5 \<le> 2 * unat (CAPACITIES ! (i + 1))"
proof -
  have "successively (\<lambda>a b. 2 * unat a + 5 \<le> 2 * unat b) CAPACITIES"
    by (simp add: CAPACITIES_def)
  then show ?thesis
    using assms by (simp add: successively_conv_nth)
qed

lemma HashTable_insert_cases:
  assumes "HashTable_insert p t = Inr t'"
  obtains t1 i x where
    "ht_mIndex t < length CAPACITIES"
    "(\<not> load_factor_reached (HashTable_size t) (CAPACITIES ! ht_mIndex t) \<and> t1 = t)
      \<or> (load_factor_reached (HashTable_size t) (CAPACITIES ! ht_mIndex t)
          \<and> HashTable_resize t = Inr t1)"
    "t' = t1\<lparr>ht_table := (ht_table t1)[i := x]\<rparr>"
  using assms unfolding HashTable_insert_def
  by (auto split: if_splits sum.splits option.splits)

lemma HashTable_insert_preserves:
  assumes inv: "HashTable_invariant t"
    and bound: "5 * HashTable_size t < 2 * capacity t + 5"
    and ins: "HashTable_insert p t = Inr t'"
  shows "HashTable_invariant t' \<and> 5 * HashTable_size t' < 2 * capacity t' + 5"
proof -
  from ins obtain t1 i x where
    idx: "ht_mIndex t < length CAPACITIES"
    and t1: "(\<not> load_factor_reached (HashTable_size t) (CAPACITIES ! ht_mIndex t) \<and> t1 = t)
      \<or> (load_factor_reached (HashTable_size t) (CAPACITIES ! ht_mIndex t)
          \<and> HashTable_resize t = Inr t1)"
    and t': "t' = t1\<lparr>ht_table := (ht_table t1)[i := x]\<rparr>"
    by (rule HashTable_insert_cases)
  have "CAPACITIES ! ht_mIndex t \<in> set CAPACITIES"
    using idx by simp
  then have "7 < CAPACITIES ! ht_mIndex t"
    using CAPACITIES_above_7 by blast
  then have nz: "CAPACITIES ! ht_mIndex t \<noteq> 0"
    by auto
  have before: "HashTable_invariant t1 \<and> 5 * HashTable_size t1 < 2 * capacity t1"
    using t1
  proof
    assume "\<not> load_factor_reached (HashTable_size t) (CAPACITIES ! ht_mIndex t) \<and> t1 = t"
    then show ?thesis
      using inv nz by (simp add: load_factor_reached_iff capacity_def)
  next
    assume "load_factor_reached (HashTable_size t) (CAPACITIES ! ht_mIndex t)
          \<and> HashTable_resize t = Inr t1"
    then have res: "HashTable_resize t = Inr t1"
      by simp
    have grow: "2 * capacity t + 5 \<le> 2 * capacity t1"
      using HashTable_resize_result(1,2) [OF res] CAPACITIES_growth [of "ht_mIndex t"]
      by (simp add: capacity_def)
    have "HashTable_size t1 \<le> HashTable_size t"
      by (rule HashTable_resize_result(4) [OF res])
    then have "5 * HashTable_size t1 < 2 * capacity t1"
      using bound grow by linarith
    then show ?thesis
      using HashTable_resize_result(2,3) [OF res] by (simp add: HashTable_invariant_def)
  qed
  have "HashTable_size t' \<le> Suc (HashTable_size t1)"
    using t' by (simp add: HashTable_size_def live_count_update)
  moreover have "capacity t' = capacity t1" and "HashTable_invariant t' = HashTable_invariant t1"
    using t' by (simp_all add: capacity_def HashTable_invariant_def)
  ultimately show ?thesis
    using before by simp
qed

lemma HashTable_remove_preserves:
  assumes inv: "HashTable_invariant t"
    and bound: "5 * HashTable_size t < 2 * capacity t + 5"
    and rem: "HashTable_remove key t = Inr t'"
  shows "HashTable_invariant t' \<and> 5 * HashTable_size t' < 2 * capacity t' + 5"
proof -
  from rem consider "t' = t"
    | i hi where "t' = t\<lparr>ht_table := (ht_table t)[i := Some (hi\<lparr>deleted := True\<rparr>)]\<rparr>"
    unfolding HashTable_remove_def by (auto split: if_splits sum.splits option.splits)
  then show ?thesis
  proof cases
    case 1
    then show ?thesis using inv bound by simp
  next
    case 2
    have "\<not> live (Some (hi\<lparr>deleted := True\<rparr>))"
      by (simp add: live_def)
    then have "HashTable_size t' \<le> HashTable_size t"
      using 2 by (simp add: HashTable_size_def live_count_update_dead)
    moreover have "capacity t' = capacity t" and "HashTable_invariant t' = HashTable_invariant t"
      using 2 by (simp_all add: capacity_def HashTable_invariant_def)
    ultimately show ?thesis
      using inv bound by simp
  qed
qed

lemma HashTable_resize_preserves:
  assumes bound: "5 * HashTable_size t < 2 * capacity t + 5"
    and res: "HashTable_resize t = Inr t'"
  shows "HashTable_invariant t' \<and> 5 * HashTable_size t' < 2 * capacity t' + 5"
proof -
  have "2 * capacity t + 5 \<le> 2 * capacity t'"
    using HashTable_resize_result(1,2) [OF res] CAPACITIES_growth [of "ht_mIndex t"]
    by (simp add: capacity_def)
  moreover have "HashTable_size t' \<le> HashTable_size t"
    by (rule HashTable_resize_result(4) [OF res])
  ultimately have "5 * HashTable_size t' < 2 * capacity t' + 5"
    using bound by linarith
  then show ?thesis
    using HashTable_resize_result(2,3) [OF res] by (simp add: HashTable_invariant_def)
qed

lemma step_preserves:
  assumes "HashTable_invariant t" and "5 * HashTable_size t < 2 * capacity t + 5"
    and "step op t = Inr t'"
  shows "HashTable_invariant t' \<and> 5 * HashTable_size t' < 2 * capacity t' + 5"
proof (cases op)
  case (Insert p)
  then show ?thesis
    using assms HashTable_insert_preserves [of t p t'] by simp
next
  case (Remove key)
  then show ?thesis
    using assms HashTable_remove_preserves [of t key t'] by simp
next
  case (Find key)
  then show ?thesis
    using assms by (auto split: sum.splits)
next
  case (At key)
  then show ?thesis
    using assms by (auto split: sum.splits)
next
  case Resize
  then show ?thesis
    using assms HashTable_resize_preserves [of t t'] by simp
qed

lemma run_preserves:
  "HashTable_invariant t \<Longrightarrow> 5 * HashTable_size t < 2 * capacity t + 5 \<Longrightarrow>
   run ops t = Inr t' \<Longrightarrow>
   HashTable_invariant t' \<and> 5 * HashTable_size t' < 2 * capacity t' + 5"
proof (induction ops arbitrary: t)
  case Nil
  then show ?case by simp
next
  case (Cons op ops)
  from Cons.prems(3) obtain t1 where t1: "step op t = Inr t1" "run ops t1 = Inr t'"
    by (auto split: sum.splits)
  have "HashTable_invariant t1 \<and> 5 * HashTable_size t1 < 2 * capacity t1 + 5"
    using step_preserves [OF Cons.prems(1,2) t1(1)] .
  then show ?case
    using Cons.IH [OF _ _ t1(2)] by simp
qed

lemma HashTable_new_invariant:
  "HashTable_invariant (HashTable_new resizeAlpha prober hash kequal)"
  "HashTable_size (HashTable_new resizeAlpha prober hash kequal) = 0"
  by (simp_all add: HashTable_new_def HashTable_invariant_def HashTable_size_def live_def
      CAPACITIES_def)

lemma run_invariant:
  "run ops (HashTable_new resizeAlpha prober hash kequal) = Inr t \<Longrightarrow> HashTable_invariant t"
  using run_preserves [of "HashTable_new resizeAlpha prober hash kequal" ops t]
  by (simp add: HashTable_new_invariant)

text \<open>
  The same for the runs in which reads through deleted pointers return: the count of Occupied
  slots does not depend on where \<open>resize\<close> places the entries.
\<close>

lemma resize_loop_stale_counts:
  "resize_loop_stale stale idxs freed t newTable = Inr newTable' \<Longrightarrow>
   length newTable' = length newTable
   \<and> length (filter live newTable')
       \<le> length (filter live newTable) + length (filter live (map ((!) (ht_table t)) idxs))"
proof (induction idxs arbitrary: freed newTable)
  case Nil
  then show ?case by simp
next
  case (Cons i rest)
  show ?case
  proof (cases "ht_table t ! i")
    case None
    then show ?thesis
      using Cons.prems Cons.IH [of freed newTable] by (simp add: live_def)
  next
    case (Some hi)
    show ?thesis
    proof (cases "deleted hi")
      case True
      then show ?thesis
        using Some Cons.prems Cons.IH [of "insert i freed" newTable] by (simp add: live_def)
    next
      case False
      then obtain index where index:
        "HashTable_probe {} (table_as_read stale freed t) (fst (item hi)) = Inr index"
        "unat index < length newTable"
        "resize_loop_stale stale rest freed t (newTable[unat index := Some hi]) = Inr newTable'"
        using Some Cons.prems by (auto split: sum.splits if_splits)
      have "length (filter live (newTable[unat index := Some hi]))
          \<le> Suc (length (filter live newTable))"
        by (rule live_count_update)
      moreover have "live (ht_table t ! i)"
        using Some False by (simp add: live_def)
      ultimately show ?thesis
        using Cons.IH [OF index(3)] by simp
    qed
  qed
qed

lemma HashTable_resize_stale_result:
  assumes "HashTable_resize_stale stale t = Inr t'"
  shows "ht_mIndex t' = ht_mIndex t + 1" and "ht_mIndex t' < length CAPACITIES"
    and "length (ht_table t') = unat (CAPACITIES ! ht_mIndex t')"
    and "HashTable_size t' \<le> HashTable_size t"
proof -
  from assms obtain newTable where
    idx: "ht_mIndex t + 1 < length CAPACITIES"
    and loop: "resize_loop_stale stale [0..<length (ht_table t)] {} t
         (replicate (unat (CAPACITIES ! (ht_mIndex t + 1))) None) = Inr newTable"
    and t': "t' = t\<lparr>ht_table := newTable, ht_mIndex := ht_mIndex t + 1\<rparr>"
    by (auto simp: HashTable_resize_stale_def Let_def split: if_splits sum.splits)
  show "ht_mIndex t' = ht_mIndex t + 1" and "ht_mIndex t' < length CAPACITIES"
    using idx t' by simp_all
  have none: "filter live (replicate n None) = []" for n :: nat
    by (simp add: live_def)
  have "length newTable = unat (CAPACITIES ! (ht_mIndex t + 1))"
    and "length (filter live newTable) \<le> length (filter live (ht_table t))"
    using resize_loop_stale_counts [OF loop] by (simp_all add: none map_nth)
  then show "length (ht_table t') = unat (CAPACITIES ! ht_mIndex t')"
    and "HashTable_size t' \<le> HashTable_size t"
    using t' by (simp_all add: HashTable_size_def)
qed

lemma HashTable_resize_stale_preserves:
  assumes bound: "5 * HashTable_size t < 2 * capacity t + 5"
    and res: "HashTable_resize_stale stale t = Inr t'"
  shows "HashTable_invariant t' \<and> 5 * HashTable_size t' < 2 * capacity t'"
proof -
  have "2 * capacity t + 5 \<le> 2 * capacity t'"
    using HashTable_resize_stale_result(1,2) [OF res] CAPACITIES_growth [of "ht_mIndex t"]
    by (simp add: capacity_def)
  moreover have "HashTable_size t' \<le> HashTable_size t"
    by (rule HashTable_resize_stale_result(4) [OF res])
  ultimately have "5 * HashTable_size t' < 2 * capacity t'"
    using bound by linarith
  then show ?thesis
    using HashTable_resize_stale_result(2,3) [OF res] by (simp add: HashTable_invariant_def)
qed

lemma HashTable_insert_stale_preserves:
  assumes inv: "HashTable_invariant t"
    and bound: "5 * HashTable_size t < 2 * capacity t + 5"
    and ins: "HashTable_insert_stale stale p t = Inr t'"
  shows "HashTable_invariant t' \<and> 5 * HashTable_size t' < 2 * capacity t' + 5"
proof -
  from ins obtain t1 i x where
    idx: "ht_mIndex t < length CAPACITIES"
    and t1: "(\<not> load_factor_reached (HashTable_size t) (CAPACITIES ! ht_mIndex t) \<and> t1 = t)
      \<or> HashTable_resize_stale stale t = Inr t1"
    and t': "t' = t1\<lparr>ht_table := (ht_table t1)[i := x]\<rparr>"
    unfolding HashTable_insert_stale_def
    by (auto split: if_splits sum.splits option.splits)
  have "CAPACITIES ! ht_mIndex t \<in> set CAPACITIES"
    using idx by simp
  then have "7 < CAPACITIES ! ht_mIndex t"
    using CAPACITIES_above_7 by blast
  then have nz: "CAPACITIES ! ht_mIndex t \<noteq> 0"
    by auto
  have before: "HashTable_invariant t1 \<and> 5 * HashTable_size t1 < 2 * capacity t1"
    using t1
  proof
    assume "\<not> load_factor_reached (HashTable_size t) (CAPACITIES ! ht_mIndex t) \<and> t1 = t"
    then show ?thesis
      using inv nz by (simp add: load_factor_reached_iff capacity_def)
  next
    assume "HashTable_resize_stale stale t = Inr t1"
    then show ?thesis
      using bound by (rule HashTable_resize_stale_preserves [rotated])
  qed
  have "HashTable_size t' \<le> Suc (HashTable_size t1)"
    using t' by (simp add: HashTable_size_def live_count_update)
  moreover have "capacity t' = capacity t1" and "HashTable_invariant t' = HashTable_invariant t1"
    using t' by (simp_all add: capacity_def HashTable_invariant_def)
  ultimately show ?thesis
    using before by simp
qed

lemma step_stale_preserves:
  assumes "HashTable_invariant t" and "5 * HashTable_size t < 2 * capacity t + 5"
    and "step_stale stale op t = Inr t'"
  shows "HashTable_invariant t' \<and> 5 * HashTable_size t' < 2 * capacity t' + 5"
proof (cases op)
  case (Insert p)
  then show ?thesis
    using assms HashTable_insert_stale_preserves [of t stale p t'] by simp
next
  case Resize
  then have "HashTable_invariant t' \<and> 5 * HashTable_size t' < 2 * capacity t'"
    using assms HashTable_resize_stale_preserves [of t stale t'] by simp
  then show ?thesis
    by simp
next
  case (Remove key)
  then show ?thesis
    using assms step_preserves [of t "Remove key" t'] by simp
next
  case (Find key)
  then show ?thesis
    using assms step_preserves [of t "Find key" t'] by simp
next
  case (At key)
  then show ?thesis
    using assms step_preserves [of t "At key" t'] by simp
qed

lemma run_stale_preserves:
  "HashTable_invariant t \<Longrightarrow> 5 * HashTable_size t < 2 * capacity t + 5 \<Longrightarrow>
   run_stale ops t = Inr t' \<Longrightarrow>
   HashTable_invariant t' \<and> 5 * HashTable_size t' < 2 * capacity t' + 5"
proof (induction ops arbitrary: t)
  case Nil
  then show ?case by simp
next
  case (Cons os ops)
  from Cons.prems(3) obtain t1 where t1: "step_stale (snd os) (fst os) t = Inr t1"
    "run_stale ops t1 = Inr t'"
    by (auto split: sum.splits)
  have "HashTable_invariant t1 \<and> 5 * HashTable_size t1 < 2 * capacity t1 + 5"
    using step_stale_preserves [OF Cons.prems(1,2) t1(1)] .
  then show ?case
    using Cons.IH [OF _ _ t1(2)] by simp
qed

subsection \<open>Where a run with stale reads stops\<close>

text \<open>
  With \<open>LinearProber\<close> the probe sequence reaches every slot, so inside \<open>resize\<close> the
  \<open>probe\<close> for an Occupied entry stops at the latest at the entry's own slot, provided the key
  equals itself under \<open>kequal_\<close>: it never returns \<open>npos\<close>. A run of \<open>run_stale\<close> on such
  a table therefore stops only where the source throws.
\<close>

lemma CAPACITIES_below_2_32: "\<forall>c\<in>set CAPACITIES. unat c < 2 ^ 32"
  by (simp add: CAPACITIES_def)

lemma linear_probe_reaches_slot:
  assumes slot: "s < length (ht_table T)" "ht_table T ! s = Some hi"
      "deleted hi \<or> ht_kequal T (fst (item hi)) key"
  shows "length (ht_table T) = unat (prober_m q) \<Longrightarrow> unat (prober_m q) < 2 ^ 32 \<Longrightarrow>
         prober_start q < prober_m q \<Longrightarrow>
         unat (prober_numProbes q) \<le> k \<Longrightarrow> k < unat (prober_m q) \<Longrightarrow>
         (unat (prober_start q) + k) mod unat (prober_m q) = s \<Longrightarrow>
         \<exists>loc. probe_loop {} T key (LinearState q) = Inr loc \<and> loc \<noteq> npos
            \<and> unat loc < length (ht_table T)"
proof (induction "k - unat (prober_numProbes q)" arbitrary: q rule: less_induct)
  case less
  let ?n = "prober_numProbes q" and ?m = "prober_m q" and ?st = "prober_start q"
  let ?loc = "(?st + ?n) mod ?m"
  have n_lt: "unat ?n < unat ?m"
    using less.prems(4,5) by simp
  then have lt: "?n < ?m"
    by (simp add: word_less_nat_alt)
  then have nle: "\<not> ?m \<le> ?n"
    by simp
  have st_lt: "unat ?st < unat ?m"
    using less.prems(3) by (simp add: word_less_nat_alt)
  have "unat (?st + ?n) = (unat ?st + unat ?n) mod 2 ^ 64"
    by (simp add: unat_word_ariths)
  moreover have "unat ?st + unat ?n < 2 ^ 64"
    using st_lt n_lt less.prems(2) by simp
  ultimately have "unat (?st + ?n) = unat ?st + unat ?n"
    by simp
  then have uloc: "unat ?loc = (unat ?st + unat ?n) mod unat ?m"
    by (simp add: unat_mod)
  then have inside: "unat ?loc < length (ht_table T)"
    using n_lt less.prems(1) by simp
  moreover have "unat npos = 2 ^ 64 - 1"
    by (simp add: npos_def unsigned_minus_1_eq_mask mask_eq_exp_minus_1)
  ultimately have "unat ?loc < unat npos"
    using less.prems(1,2) by simp
  then have not_npos: "?loc \<noteq> npos"
    by auto
  have nxt: "fst (prober_next (LinearState q)) = ?loc"
    "snd (prober_next (LinearState q)) = LinearState (q\<lparr>prober_numProbes := ?n + 1\<rparr>)"
    using nle by (simp_all add: LinearProber_next_def)
  show ?case
  proof (cases "ht_table T ! unat ?loc")
    case None
    then show ?thesis
      using nxt not_npos inside by (subst probe_loop.simps) simp
  next
    case (Some hi')
    show ?thesis
    proof (cases "deleted hi' \<or> ht_kequal T (fst (item hi')) key")
      case True
      then show ?thesis
        using nxt not_npos inside Some by (subst probe_loop.simps) auto
    next
      case False
      have "unat ?loc \<noteq> s"
        using False Some slot(2,3) by auto
      then have "k \<noteq> unat ?n"
        using uloc less.prems(6) by auto
      then have k: "unat ?n < k"
        using less.prems(4) by simp
      have un1: "unat (?n + 1) = Suc (unat ?n)"
      proof -
        have "unat (?n + 1) = (unat ?n + 1) mod 2 ^ 64"
          by (simp add: unat_word_ariths)
        moreover have "unat ?n + 1 < 2 ^ 64"
          using n_lt less.prems(2) by simp
        ultimately show ?thesis by simp
      qed
      let ?q' = "q\<lparr>prober_numProbes := ?n + 1\<rparr>"
      have "\<exists>loc. probe_loop {} T key (LinearState ?q') = Inr loc \<and> loc \<noteq> npos
            \<and> unat loc < length (ht_table T)"
        using less.hyps [of ?q'] less.prems k un1 by simp
      moreover have "probe_loop {} T key (LinearState q)
          = probe_loop {} T key (LinearState ?q')"
        using nxt not_npos inside Some False by (subst probe_loop.simps) auto
      ultimately show ?thesis
        by simp
    qed
  qed
qed

lemma HashTable_probe_finds_slot:
  assumes inv: "HashTable_invariant T" and lin: "ht_prober T = UseLinearProber"
    and slot: "s < length (ht_table T)" "ht_table T ! s = Some hi"
      "deleted hi \<or> ht_kequal T (fst (item hi)) key"
  shows "\<exists>loc. HashTable_probe {} T key = Inr loc \<and> loc \<noteq> npos
            \<and> unat loc < length (ht_table T)"
proof -
  let ?cap = "CAPACITIES ! ht_mIndex T"
  let ?h = "ht_hash T key mod ?cap"
  let ?q = "Prober_init ?h ?cap key"
  have idx: "ht_mIndex T < length CAPACITIES" and len: "length (ht_table T) = unat ?cap"
    using inv by (simp_all add: HashTable_invariant_def)
  then have mem: "?cap \<in> set CAPACITIES"
    by simp
  then have small: "unat ?cap < 2 ^ 32" and "7 < ?cap"
    using CAPACITIES_below_2_32 CAPACITIES_above_7 by blast+
  then have "0 < ?cap"
    using le_less_trans [OF word_zero_le, of 7 ?cap] by simp
  then have start: "?h < ?cap"
    by (rule word_mod_less_divisor)
  let ?M = "unat ?cap" and ?S = "unat ?h"
  let ?k = "(s + ?M - ?S) mod ?M"
  have S: "?S < ?M"
    using start by (simp add: word_less_nat_alt)
  have sM: "s < ?M"
    using slot(1) len by simp
  have "(?S + ?k) mod ?M = (?S + (s + ?M - ?S)) mod ?M"
    by (simp add: mod_add_right_eq)
  also have "\<dots> = (s + ?M) mod ?M"
    using S by simp
  also have "\<dots> = s"
    using sM by simp
  finally have k: "(?S + ?k) mod ?M = s" .
  have "?k < ?M"
    using sM by simp
  then have "\<exists>loc. probe_loop {} T key (LinearState ?q) = Inr loc \<and> loc \<noteq> npos
            \<and> unat loc < length (ht_table T)"
    using linear_probe_reaches_slot [OF slot, of ?q ?k] len small start k
    by (simp add: Prober_init_def)
  then show ?thesis
    using idx lin by (simp add: HashTable_probe_def)
qed


lemma table_as_read_fields:
  "ht_mIndex (table_as_read stale freed t) = ht_mIndex t"
  "length (ht_table (table_as_read stale freed t)) = length (ht_table t)"
  "ht_prober (table_as_read stale freed t) = ht_prober t"
  "ht_kequal (table_as_read stale freed t) = ht_kequal t"
  "i < length (ht_table t) \<Longrightarrow> i \<notin> freed \<Longrightarrow>
     ht_table (table_as_read stale freed t) ! i = ht_table t ! i"
  by (auto simp: table_as_read_def split: option.splits)

lemma resize_loop_stale_returns:
  assumes inv: "HashTable_invariant t" and lin: "ht_prober t = UseLinearProber"
    and refl: "\<forall>k. ht_kequal t k k"
  shows "distinct idxs \<Longrightarrow> set idxs \<subseteq> {..<length (ht_table t)} \<Longrightarrow> freed \<inter> set idxs = {} \<Longrightarrow>
         length (ht_table t) \<le> length newTable \<Longrightarrow>
         \<exists>nt. resize_loop_stale stale idxs freed t newTable = Inr nt"
proof (induction idxs arbitrary: freed newTable)
  case Nil
  then show ?case by simp
next
  case (Cons i rest)
  have i: "i < length (ht_table t)" "i \<notin> freed" "i \<notin> set rest"
    using Cons.prems by auto
  have rest: "distinct rest" "set rest \<subseteq> {..<length (ht_table t)}" "freed \<inter> set rest = {}"
    using Cons.prems by auto
  show ?case
  proof (cases "ht_table t ! i")
    case None
    then show ?thesis
      using Cons.IH [OF rest Cons.prems(4)] by simp
  next
    case (Some hi)
    show ?thesis
    proof (cases "deleted hi")
      case True
      have "insert i freed \<inter> set rest = {}"
        using rest(3) i(3) by auto
      then show ?thesis
        using Some True Cons.IH [OF rest(1,2) _ Cons.prems(4)] by simp
    next
      case False
      let ?T = "table_as_read stale freed t"
      have "HashTable_invariant ?T"
        using inv by (simp add: HashTable_invariant_def table_as_read_fields)
      moreover have "ht_prober ?T = UseLinearProber"
        using lin by (simp add: table_as_read_fields)
      moreover have "i < length (ht_table ?T)" "ht_table ?T ! i = Some hi"
        using i Some by (simp_all add: table_as_read_fields)
      moreover have "deleted hi \<or> ht_kequal ?T (fst (item hi)) (fst (item hi))"
        using refl by (simp add: table_as_read_fields)
      ultimately obtain loc where loc: "HashTable_probe {} ?T (fst (item hi)) = Inr loc"
        "unat loc < length (ht_table ?T)"
        using HashTable_probe_finds_slot [of ?T i hi "fst (item hi)"] by blast
      then have inside: "unat loc < length newTable"
        using Cons.prems(4) by (simp add: table_as_read_fields)
      have "length (ht_table t) \<le> length (newTable[unat loc := Some hi])"
        using Cons.prems(4) by simp
      then show ?thesis
        using Some False loc(1) inside Cons.IH [OF rest] by simp
    qed
  qed
qed

lemma HashTable_resize_stale_throws:
  assumes inv: "HashTable_invariant t" and lin: "ht_prober t = UseLinearProber"
    and refl: "\<forall>k. ht_kequal t k k"
    and err: "HashTable_resize_stale stale t = Inl e"
  shows "e = CapacityExhausted"
proof (cases "ht_mIndex t + 1 < length CAPACITIES")
  case True
  have "2 * unat (CAPACITIES ! ht_mIndex t) + 5 \<le> 2 * unat (CAPACITIES ! (ht_mIndex t + 1))"
    using True by (rule CAPACITIES_growth)
  then have "length (ht_table t)
      \<le> length (replicate (unat (CAPACITIES ! (ht_mIndex t + 1))) (None :: ('a, 'b) HashItem option))"
    using inv by (simp add: HashTable_invariant_def)
  moreover have "distinct [0..<length (ht_table t)]"
    and "set [0..<length (ht_table t)] \<subseteq> {..<length (ht_table t)}"
    and "{} \<inter> set [0..<length (ht_table t)] = {}"
    by auto
  ultimately have "\<exists>nt. resize_loop_stale stale [0..<length (ht_table t)] {} t
      (replicate (unat (CAPACITIES ! (ht_mIndex t + 1))) None) = Inr nt"
    by (intro resize_loop_stale_returns [OF inv lin refl])
  then obtain nt where "resize_loop_stale stale [0..<length (ht_table t)] {} t
      (replicate (unat (CAPACITIES ! (ht_mIndex t + 1))) None) = Inr nt"
    by blast
  then show ?thesis
    using err True by (simp add: HashTable_resize_stale_def)
next
  case False
  then show ?thesis
    using err by (simp add: HashTable_resize_stale_def)
qed

lemma HashTable_resize_stale_frame:
  assumes "HashTable_resize_stale stale t = Inr t'"
  shows "ht_prober t' = ht_prober t \<and> ht_kequal t' = ht_kequal t"
  using assms
  by (auto simp: HashTable_resize_stale_def Let_def split: if_splits sum.splits)

lemma HashTable_insert_stale_frame:
  assumes "HashTable_insert_stale stale p t = Inr t'"
  shows "ht_prober t' = ht_prober t \<and> ht_kequal t' = ht_kequal t"
proof -
  from assms obtain t1 i x where
    t1: "t1 = t \<or> HashTable_resize_stale stale t = Inr t1"
    and t': "t' = t1\<lparr>ht_table := (ht_table t1)[i := x]\<rparr>"
    unfolding HashTable_insert_stale_def
    by (auto split: if_splits sum.splits option.splits)
  have "ht_prober t1 = ht_prober t \<and> ht_kequal t1 = ht_kequal t"
    using t1 HashTable_resize_stale_frame [of stale t t1] by auto
  then show ?thesis
    using t' by simp
qed

lemma HashTable_remove_frame:
  assumes "HashTable_remove key t = Inr t'"
  shows "ht_prober t' = ht_prober t \<and> ht_kequal t' = ht_kequal t"
proof -
  from assms consider "t' = t"
    | i hi where "t' = t\<lparr>ht_table := (ht_table t)[i := Some (hi\<lparr>deleted := True\<rparr>)]\<rparr>"
    unfolding HashTable_remove_def by (auto split: if_splits sum.splits option.splits)
  then show ?thesis
    by cases simp_all
qed

lemma step_stale_frame:
  assumes "step_stale stale op t = Inr t'"
  shows "ht_prober t' = ht_prober t \<and> ht_kequal t' = ht_kequal t"
proof (cases op)
  case (Insert p)
  then show ?thesis
    using assms HashTable_insert_stale_frame [of stale p t t'] by simp
next
  case (Remove key)
  then show ?thesis
    using assms HashTable_remove_frame [of key t t'] by simp
next
  case (Find key)
  then show ?thesis
    using assms by (auto split: sum.splits)
next
  case (At key)
  then show ?thesis
    using assms by (auto split: sum.splits)
next
  case Resize
  then show ?thesis
    using assms HashTable_resize_stale_frame [of stale t t'] by simp
qed

lemma HashTable_insert_stale_throws:
  assumes inv: "HashTable_invariant t" and lin: "ht_prober t = UseLinearProber"
    and refl: "\<forall>k. ht_kequal t k k"
    and err: "HashTable_insert_stale stale p t = Inl e"
  shows "e = ProbeExhausted \<or> e = CapacityExhausted"
proof -
  have idx: "ht_mIndex t < length CAPACITIES"
    using inv by (simp add: HashTable_invariant_def)
  show ?thesis
  proof (cases "if load_factor_reached (HashTable_size t) (CAPACITIES ! ht_mIndex t)
                then HashTable_resize_stale stale t else Inr t")
    case (Inl e')
    then have "HashTable_insert_stale stale p t = Inl e'"
      using idx by (simp add: HashTable_insert_stale_def)
    then have "e = e'"
      using err by simp
    moreover have "HashTable_resize_stale stale t = Inl e'"
      using Inl by (simp split: if_splits)
    ultimately show ?thesis
      using HashTable_resize_stale_throws [OF inv lin refl] by simp
  next
    case (Inr t1)
    have "t1 = t \<or> HashTable_resize_stale stale t = Inr t1"
      using Inr by (simp split: if_splits)
    then have "HashTable_invariant t1"
      using inv HashTable_resize_stale_result(2,3) [of stale t t1]
      by (auto simp: HashTable_invariant_def)
    then have "\<exists>loc. HashTable_probe {} t1 (fst p) = Inr loc"
      by (rule HashTable_probe_returns)
    then obtain loc where loc: "HashTable_probe {} t1 (fst p) = Inr loc"
      by blast
    have "HashTable_insert_stale stale p t = Inl ProbeExhausted
        \<or> (\<exists>t'. HashTable_insert_stale stale p t = Inr t')"
      using idx by (simp add: HashTable_insert_stale_def Inr loc split: option.splits)
    then show ?thesis
      using err by auto
  qed
qed

lemma step_stale_throws:
  assumes inv: "HashTable_invariant t" and lin: "ht_prober t = UseLinearProber"
    and refl: "\<forall>k. ht_kequal t k k"
    and err: "step_stale stale op t = Inl e"
  shows "e = KeyNotFound \<or> e = ProbeExhausted \<or> e = CapacityExhausted"
proof (cases op)
  case (Insert p)
  then show ?thesis
    using err HashTable_insert_stale_throws [OF inv lin refl, of stale p e] by simp
next
  case (Remove key)
  obtain loc where "HashTable_probe {} t key = Inr loc"
    using HashTable_probe_returns [OF inv, of key] by blast
  then have "\<exists>t'. HashTable_remove key t = Inr t'"
    by (simp add: HashTable_remove_def split: option.splits)
  then show ?thesis
    using err Remove by auto
next
  case (Find key)
  obtain loc where "HashTable_probe {} t key = Inr loc"
    using HashTable_probe_returns [OF inv, of key] by blast
  then have "\<exists>r. HashTable_find key t = Inr r"
    by (simp add: HashTable_find_def split: option.splits)
  then show ?thesis
    using err Find by auto
next
  case (At key)
  obtain loc where "HashTable_probe {} t key = Inr loc"
    using HashTable_probe_returns [OF inv, of key] by blast
  then have "\<exists>r. HashTable_find key t = Inr r"
    by (simp add: HashTable_find_def split: option.splits)
  then have "HashTable_at key t = Inl KeyNotFound \<or> (\<exists>v. HashTable_at key t = Inr v)"
    by (auto simp: HashTable_at_def split: option.splits)
  then show ?thesis
    using err At by auto
next
  case Resize
  then show ?thesis
    using err HashTable_resize_stale_throws [OF inv lin refl] by simp
qed

lemma run_stale_throws:
  "HashTable_invariant t \<Longrightarrow> 5 * HashTable_size t < 2 * capacity t + 5 \<Longrightarrow>
   ht_prober t = UseLinearProber \<Longrightarrow> \<forall>k. ht_kequal t k k \<Longrightarrow>
   run_stale sops t = Inl e \<Longrightarrow>
   e = KeyNotFound \<or> e = ProbeExhausted \<or> e = CapacityExhausted"
proof (induction sops arbitrary: t)
  case Nil
  then show ?case by simp
next
  case (Cons os sops)
  show ?case
  proof (cases "step_stale (snd os) (fst os) t")
    case (Inl e')
    then have "e = e'"
      using Cons.prems(5) by simp
    then show ?thesis
      using step_stale_throws [OF Cons.prems(1,3,4) Inl] by simp
  next
    case (Inr t1)
    then have "run_stale sops t1 = Inl e"
      using Cons.prems(5) by simp
    moreover have "HashTable_invariant t1 \<and> 5 * HashTable_size t1 < 2 * capacity t1 + 5"
      using step_stale_preserves [OF Cons.prems(1,2) Inr] .
    moreover have "ht_prober t1 = UseLinearProber" "\<forall>k. ht_kequal t1 k k"
      using step_stale_frame [OF Inr] Cons.prems(3,4) by simp_all
    ultimately show ?thesis
      using Cons.IH [of t1] by simp
  qed
qed

lemma run_stale_stops_where_the_source_throws:
  assumes "\<forall>k. kequal k k"
    and "run_stale sops (HashTable_new resizeAlpha UseLinearProber hash kequal) = Inl e"
  shows "e = KeyNotFound \<or> e = ProbeExhausted \<or> e = CapacityExhausted"
proof -
  let ?t0 = "HashTable_new resizeAlpha UseLinearProber hash kequal"
  have "HashTable_invariant ?t0" "5 * HashTable_size ?t0 < 2 * capacity ?t0 + 5"
    by (simp_all add: HashTable_new_invariant)
  moreover have "ht_prober ?t0 = UseLinearProber" "\<forall>k. ht_kequal ?t0 k k"
    using assms(1) by (simp_all add: HashTable_new_def)
  ultimately show ?thesis
    using assms(2) by (rule run_stale_throws)
qed

text \<open>
  \<open>insert\<close> resizes exactly when the ratio is at or above the literal 0.4, whatever the table
  was constructed with.
\<close>

lemma HashTable_insert_resizes_at_literal_threshold:
  assumes "HashTable_insert p t = Inr t'"
  shows "ht_mIndex t' =
     (if load_factor_reached (HashTable_size t) (CAPACITIES ! ht_mIndex t)
      then ht_mIndex t + 1 else ht_mIndex t)"
proof -
  from assms obtain t1 i x where
    t1: "(\<not> load_factor_reached (HashTable_size t) (CAPACITIES ! ht_mIndex t) \<and> t1 = t)
      \<or> (load_factor_reached (HashTable_size t) (CAPACITIES ! ht_mIndex t)
          \<and> HashTable_resize t = Inr t1)"
    and t': "t' = t1\<lparr>ht_table := (ht_table t1)[i := x]\<rparr>"
    by (rule HashTable_insert_cases)
  from t1 show ?thesis
    using t' HashTable_resize_result(1) [of t t1] by auto
qed

section \<open>C1: find after inserts and removes\<close>

text \<open>
  C1 says that after any sequence of inserts and removes \<open>find(k)\<close> returns the value last
  inserted for \<open>k\<close>, unless \<open>k\<close> was removed afterwards. The code does not do this, in two
  ways that both come from \<open>probe\<close> stopping at the first tombstone. Keys 0 and 11 both hash
  to slot 0 of the initial table of capacity 11.
  \<^item> After \<open>insert(0,1); insert(11,2); remove(0)\<close>, \<open>find(11)\<close> is null: \<open>probe(11)\<close>
    stops at the tombstone of key 0 in slot 0 and never reaches slot 1.
  \<^item> After \<open>insert(0,1); remove(0); insert(11,2)\<close>, the insert reuses slot 0 and writes the
    value but not the key: \<open>find(11)\<close> is null and \<open>find(0)\<close> returns the pair \<open>(0, 2)\<close>,
    although key 0 was removed.
\<close>

theorem find_misses_key_behind_tombstone:
  "(case run [Insert (0, 1), Insert (11, 2), Remove 0] (size_t_table 0.4) of
      Inl e \<Rightarrow> Inl e
    | Inr t \<Rightarrow> HashTable_find 11 t) = Inr None
   \<and> (case run [Insert (0, 1), Remove 0, Insert (11, 2)] (size_t_table 0.4) of
        Inl e \<Rightarrow> Inl e
      | Inr t \<Rightarrow> HashTable_find 11 t) = Inr None
   \<and> (case run [Insert (0, 1), Remove 0, Insert (11, 2)] (size_t_table 0.4) of
        Inl e \<Rightarrow> Inl e
      | Inr t \<Rightarrow> HashTable_find 0 t) = Inr (Some (0, 2))"
  by code_simp

section \<open>C2: resize keeps the live keys\<close>

text \<open>
  C2 says that \<open>resize\<close> re-probes every Occupied entry against the new capacity and that
  every live key is found afterwards. The code calls \<open>probe\<close> before it replaces \<open>table_\<close>
  and \<open>mIndex_\<close>, so the entry is placed at the index it has in the old array. Key 12 is
  found before the resize; the resize to capacity 23 puts it in slot 1 (\<open>12 mod 11\<close>) and leaves
  slot 12 (\<open>12 mod 23\<close>) null; \<open>find(12)\<close> is null afterwards.
\<close>

theorem resize_places_by_old_capacity:
  "(case run [Insert (12, 1)] (size_t_table 0.4) of
      Inl e \<Rightarrow> Inl e
    | Inr t \<Rightarrow> HashTable_find 12 t) = Inr (Some (12, 1))
   \<and> (case run [Insert (12, 1), Resize] (size_t_table 0.4) of
        Inl e \<Rightarrow> Inl e
      | Inr t \<Rightarrow> Inr (ht_mIndex t, length (ht_table t), ht_table t ! 1, ht_table t ! 12))
       = Inr (1, 23, Some \<lparr>item = (12, 1), deleted = False\<rparr>, None)
   \<and> (case run [Insert (12, 1), Resize] (size_t_table 0.4) of
        Inl e \<Rightarrow> Inl e
      | Inr t \<Rightarrow> HashTable_find 12 t) = Inr None"
  by code_simp

section \<open>C3: one live slot per key\<close>

text \<open>
  C3 says that at most one Occupied slot holds a given key. Six inserts break it: the sixth
  finds five Occupied slots in capacity 11, resizes (key 12 stays in slot 1, see C2), probes
  key 12 from slot 12 of the new array, finds it null and creates a second entry. Two Occupied
  slots hold key 12 afterwards.
\<close>

theorem two_live_slots_hold_one_key:
  "(case run [Insert (12, 1), Insert (2, 2), Insert (3, 3), Insert (4, 4), Insert (5, 5),
              Insert (12, 6)] (size_t_table 0.4) of
      Inl e \<Rightarrow> Inl e
    | Inr t \<Rightarrow> Inr (live_slots_holding 12 t, ht_table t ! 1, ht_table t ! 12))
     = Inr (2, Some \<lparr>item = (12, 1), deleted = False\<rparr>,
               Some \<lparr>item = (12, 6), deleted = False\<rparr>)"
  by code_simp

section \<open>C4: the occupancy ratio between operations\<close>

text \<open>
  C4 as stated fails on the code: \<open>insert\<close> tests the ratio before it places the entry, so
  the entry it places can take the ratio above 0.4, and it stays there until the next \<open>insert\<close>.
  After five inserts into the new table 5 of 11 slots are Occupied, and \<open>5 / 11 > 0.4\<close> holds
  between the fifth insert and the start of the sixth.
\<close>

theorem occupancy_above_threshold_counterexample:
  "(case run [Insert (0, 0), Insert (1, 0), Insert (2, 0), Insert (3, 0), Insert (4, 0)]
          (size_t_table 0.4) of
      Inl e \<Rightarrow> Inl e
    | Inr t \<Rightarrow> Inr (HashTable_size t, capacity t)) = Inr (5, 11)
   \<and> \<not> real 5 / real 11 \<le> 0.4"
proof -
  have "(case run [Insert (0, 0), Insert (1, 0), Insert (2, 0), Insert (3, 0), Insert (4, 0)]
          (size_t_table 0.4) of
      Inl e \<Rightarrow> Inl e
    | Inr t \<Rightarrow> Inr (HashTable_size t, capacity t)) = Inr (5, 11)"
    by code_simp
  then show ?thesis
    by simp
qed

text \<open>
  C4, amended: at every point between public operations on a table constructed with the default
  threshold (after any sequence of \<open>insert\<close>, \<open>remove\<close>, \<open>find\<close>, \<open>at\<close> and \<open>resize\<close>
  calls that return), the number of Occupied slots exceeds 0.4 times the capacity by less than
  one entry: \<open>5 * Occupied < 2 * capacity + 5\<close>, that is \<open>(Occupied - 1) / capacity < 0.4\<close>.
  This holds for the runs of \<open>run\<close>, where no call reads through a deleted pointer, and for
  the runs of \<open>run_stale\<close>, where \<open>resize\<close> reads through the pointers of the tombstones it
  has deleted, whatever those reads yield. The one call that the source may return from and
  that neither model follows is a \<open>resize\<close> whose \<open>probe\<close> returns \<open>npos\<close>, which writes
  outside the new array; with the default \<open>LinearProber\<close> and a key equality that is
  reflexive this does not occur, and \<open>run_stale\<close> stops only where the source throws
  (\<open>run_stale_stops_where_the_source_throws\<close>).
\<close>

theorem occupancy_exceeds_threshold_by_less_than_one_entry:
  fixes t u :: "('k, 'v) HashTable"
  shows "(run ops (HashTable_new 0.4 prober hash kequal) = Inr t \<longrightarrow>
      5 * HashTable_size t < 2 * capacity t + 5
      \<and> (real (HashTable_size t) - 1) / real (capacity t) < 0.4)
   \<and> (run_stale sops (HashTable_new 0.4 prober hash kequal) = Inr u \<longrightarrow>
      5 * HashTable_size u < 2 * capacity u + 5
      \<and> (real (HashTable_size u) - 1) / real (capacity u) < 0.4)"
proof -
  have ratio: "(real (HashTable_size v) - 1) / real (capacity v) < 0.4"
    if inv: "HashTable_invariant v" and bound: "5 * HashTable_size v < 2 * capacity v + 5"
    for v :: "('k, 'v) HashTable"
  proof -
    have "CAPACITIES ! ht_mIndex v \<in> set CAPACITIES"
      using inv by (simp add: HashTable_invariant_def)
    then have "7 < CAPACITIES ! ht_mIndex v"
      using CAPACITIES_above_7 by blast
    then have "0 < capacity v"
      by (simp add: capacity_def word_less_nat_alt)
    then have pos: "0 < real (capacity v)"
      by simp
    have "real (5 * HashTable_size v) < real (2 * capacity v + 5)"
      using bound by (simp only: of_nat_less_iff)
    then have "(real (HashTable_size v) - 1) < 0.4 * real (capacity v)"
      by simp
    then show ?thesis
      using pos by (simp add: pos_divide_less_eq)
  qed
  let ?t0 = "HashTable_new 0.4 prober hash kequal :: ('k, 'v) HashTable"
  have start: "HashTable_invariant ?t0" "5 * HashTable_size ?t0 < 2 * capacity ?t0 + 5"
    by (simp_all add: HashTable_new_invariant)
  have "5 * HashTable_size t < 2 * capacity t + 5
      \<and> (real (HashTable_size t) - 1) / real (capacity t) < 0.4"
    if "run ops ?t0 = Inr t"
    using run_preserves [OF start that] ratio [of t] by simp
  moreover have "5 * HashTable_size u < 2 * capacity u + 5
      \<and> (real (HashTable_size u) - 1) / real (capacity u) < 0.4"
    if "run_stale sops ?t0 = Inr u"
    using run_stale_preserves [OF start that] ratio [of u] by simp
  ultimately show ?thesis
    by blast
qed

theorem occupancy_exceeds_threshold_by_less_than_one_entry_witness:
  "run [Insert (0, 0), Insert (1, 0), Insert (2, 0), Insert (3, 0), Insert (4, 0)]
       (HashTable_new 0.4 UseLinearProber (\<lambda>k. k) (=) :: (64 word, int) HashTable)
     = Inr (projr (run [Insert (0, 0), Insert (1, 0), Insert (2, 0), Insert (3, 0), Insert (4, 0)]
                    (HashTable_new 0.4 UseLinearProber (\<lambda>k. k) (=))))
   \<and> HashTable_size (projr (run [Insert (0, 0), Insert (1, 0), Insert (2, 0), Insert (3, 0),
                                 Insert (4, 0)]
          (HashTable_new 0.4 UseLinearProber (\<lambda>k. k) (=) :: (64 word, int) HashTable))) = 5
   \<and> capacity (projr (run [Insert (0, 0), Insert (1, 0), Insert (2, 0), Insert (3, 0),
                           Insert (4, 0)]
          (HashTable_new 0.4 UseLinearProber (\<lambda>k. k) (=) :: (64 word, int) HashTable))) = 11
   \<and> (5 :: nat) * 5 < 2 * 11 + 5
   \<and> (real 5 - 1) / real 11 < 0.4
   \<and> run [Insert (0, 1), Insert (11, 2), Remove 0, Resize]
         (HashTable_new 0.4 UseLinearProber (\<lambda>k. k) (=) :: (64 word, int) HashTable)
       = Inl UseAfterFree
   \<and> run_stale [(Insert (0, 1), still_deleted), (Insert (11, 2), still_deleted),
                (Remove 0, still_deleted), (Resize, still_deleted)]
         (HashTable_new 0.4 UseLinearProber (\<lambda>k. k) (=))
       = Inr (projr (run_stale [(Insert (0, 1), still_deleted), (Insert (11, 2), still_deleted),
                                (Remove 0, still_deleted), (Resize, still_deleted)]
                      (HashTable_new 0.4 UseLinearProber (\<lambda>k. k) (=))))
   \<and> HashTable_size (projr (run_stale [(Insert (0, 1), still_deleted),
                                       (Insert (11, 2), still_deleted),
                                       (Remove 0, still_deleted), (Resize, still_deleted)]
          (HashTable_new 0.4 UseLinearProber (\<lambda>k. k) (=)))) = 1
   \<and> capacity (projr (run_stale [(Insert (0, 1), still_deleted),
                                 (Insert (11, 2), still_deleted),
                                 (Remove 0, still_deleted), (Resize, still_deleted)]
          (HashTable_new 0.4 UseLinearProber (\<lambda>k. k) (=)))) = 23
   \<and> (5 :: nat) * 1 < 2 * 23 + 5"
proof -
  let ?t0 = "HashTable_new 0.4 UseLinearProber (\<lambda>k. k) (=) :: (64 word, int) HashTable"
  let ?ops = "[Insert (0, 0), Insert (1, 0), Insert (2, 0), Insert (3, 0), Insert (4, 0)]
                :: (64 word, int) operation list"
  let ?sops = "[(Insert (0, 1), still_deleted), (Insert (11, 2), still_deleted),
                (Remove 0, still_deleted), (Resize, still_deleted)]
                :: ((64 word, int) operation \<times> (64 word, int) stale_reads) list"
  have "case run ?ops ?t0 of Inl e \<Rightarrow> False | Inr t \<Rightarrow> True"
    by code_simp
  then have returns: "run ?ops ?t0 = Inr (projr (run ?ops ?t0))"
    by (cases "run ?ops ?t0") simp_all
  have "case run_stale ?sops ?t0 of Inl e \<Rightarrow> False | Inr t \<Rightarrow> True"
    by code_simp
  then have returns_stale: "run_stale ?sops ?t0 = Inr (projr (run_stale ?sops ?t0))"
    by (cases "run_stale ?sops ?t0") simp_all
  have "HashTable_size (projr (run ?ops ?t0)) = 5" and "capacity (projr (run ?ops ?t0)) = 11"
    and "HashTable_size (projr (run_stale ?sops ?t0)) = 1"
    and "capacity (projr (run_stale ?sops ?t0)) = 23"
    and "run [Insert (0, 1), Insert (11, 2), Remove 0, Resize] ?t0 = Inl UseAfterFree"
    by code_simp+
  then show ?thesis
    using occupancy_exceeds_threshold_by_less_than_one_entry
      [of ?ops UseLinearProber "\<lambda>k. k" "(=)" "projr (run ?ops ?t0)" ?sops
          "projr (run_stale ?sops ?t0)"]
      returns returns_stale
    by simp
qed

section \<open>C5: the configured threshold\<close>

text \<open>
  C5 says that \<open>insert\<close> resizes exactly when the ratio is at or above the \<open>resizeAlpha\<close>
  given to the constructor. The constructor drops the argument: a table built with any
  \<open>resizeAlpha\<close> is the table built with 0.4, and \<open>insert\<close> compares with the literal 0.4.
  With \<open>resizeAlpha = 0.9\<close>, five inserts give 5 Occupied slots in capacity 11, a ratio below
  0.9, and the sixth insert resizes to capacity 23 all the same.
  (\<open>HashTable_insert_resizes_at_literal_threshold\<close> is the rule the code follows.)
\<close>

theorem resizeAlpha_is_ignored:
  "HashTable_new resizeAlpha prober hash kequal = HashTable_new 0.4 prober hash kequal
   \<and> (case run [Insert (0, 0), Insert (1, 0), Insert (2, 0), Insert (3, 0), Insert (4, 0)]
              (size_t_table 0.9) of
        Inl e \<Rightarrow> Inl e
      | Inr t \<Rightarrow> Inr (HashTable_size t, CAPACITIES ! ht_mIndex t)) = Inr (5, 11)
   \<and> real 5 / real (unat (11 :: 64 word)) < 0.9
   \<and> (case run [Insert (0, 0), Insert (1, 0), Insert (2, 0), Insert (3, 0), Insert (4, 0),
               Insert (5, 0)] (size_t_table 0.9) of
        Inl e \<Rightarrow> Inl e
      | Inr t \<Rightarrow> Inr (CAPACITIES ! ht_mIndex t)) = Inr 23"
proof -
  have "HashTable_new resizeAlpha prober hash kequal = HashTable_new 0.4 prober hash kequal"
    by (simp add: HashTable_new_def)
  moreover have
    "(case run [Insert (0, 0), Insert (1, 0), Insert (2, 0), Insert (3, 0), Insert (4, 0)]
            (size_t_table 0.9) of
        Inl e \<Rightarrow> Inl e
      | Inr t \<Rightarrow> Inr (HashTable_size t, CAPACITIES ! ht_mIndex t)) = Inr (5, 11)"
    by code_simp
  moreover have "real 5 / real (unat (11 :: 64 word)) < 0.9"
    by simp
  moreover have
    "(case run [Insert (0, 0), Insert (1, 0), Insert (2, 0), Insert (3, 0), Insert (4, 0),
             Insert (5, 0)] (size_t_table 0.9) of
        Inl e \<Rightarrow> Inl e
      | Inr t \<Rightarrow> Inr (CAPACITIES ! ht_mIndex t)) = Inr 23"
    by code_simp
  ultimately show ?thesis
    by blast
qed

section \<open>C6: the window of MyStringHash\<close>

text \<open>
  C6 says that two keys with the same last 30 characters have the same hash. \<open>operator()\<close>
  starts at \<open>pos = len % 6\<close>, not at \<open>len\<close>: the only chunk that can hold characters is
  \<open>[len % 6 - 6, len % 6)\<close>, the first \<open>len % 6\<close> characters of the key, and the other four
  chunks lie before the string (\<open>MyStringHash_first_chunk_only\<close>). Two keys of 31 characters
  that agree on their last 30 and differ in the first have different hashes.
\<close>

theorem MyStringHash_depends_on_first_character:
  "drop 1 ''baaaaaaaaaaaaaaaaaaaaaaaaaaaaaa'' = drop 1 ''caaaaaaaaaaaaaaaaaaaaaaaaaaaaaa''
   \<and> length (drop 1 ''baaaaaaaaaaaaaaaaaaaaaaaaaaaaaa'') = 30
   \<and> MyStringHash ''baaaaaaaaaaaaaaaaaaaaaaaaaaaaaa'' = 261934300
   \<and> MyStringHash ''caaaaaaaaaaaaaaaaaaaaaaaaaaaaaa'' = 523868600"
  by code_simp

section \<open>C7: the double-hash probe sequence\<close>

text \<open>
  C7 as stated, for every \<open>init(start, capacity, key)\<close>, fails on the code in two ways.
  For a capacity of at most 7 there is no ladder value below it and \<open>init\<close> reads
  \<open>DOUBLE_HASH_MOD_VALUES[-1]\<close>. And \<open>start + numProbes_ * dhstep_\<close> is computed in
  64 bits: with \<open>start = 2\<^sup>6\<^sup>4 - 1\<close>, capacity 11 and step 2 (coprime to 11) the first eleven
  probes are 4, 1, 3, 5, 7, 9, 0, 2, 4, 6, 8; index 4 comes twice and index 10 never.
\<close>

theorem DoubleHashProber_counterexample:
  "DoubleHashProber_init (\<lambda>k. k) 0 5 (0 :: 64 word) = Inl OutOfBounds
   \<and> map_sum id prober_dhstep (DoubleHashProber_init (\<lambda>k. k) (- 1) 11 5) = Inr 2
   \<and> coprime (unat (2 :: 64 word)) (unat (11 :: 64 word))
   \<and> map_sum id (DoubleHashProber_calls 11) (DoubleHashProber_init (\<lambda>k. k) (- 1) 11 5)
       = Inr [4, 1, 3, 5, 7, 9, 0, 2, 4, 6, 8]
   \<and> \<not> distinct [4, 1, 3, 5, 7, 9, 0, 2, 4, 6, 8 :: 64 word]
   \<and> 10 \<notin> set [4, 1, 3, 5, 7, 9, 0, 2, 4, 6, 8 :: 64 word]"
  by code_simp

text \<open>
  C7, amended: for every capacity \<open>m > 7\<close>, \<open>init(start, m, key)\<close> sets the step to
  \<open>modulus - h2(key) mod modulus\<close>, where \<open>modulus\<close> is the largest value of
  \<open>DOUBLE_HASH_MOD_VALUES\<close> strictly below \<open>m\<close>. If \<open>start + (m - 1) * step\<close> is below
  \<open>2\<^sup>6\<^sup>4\<close>, the first \<open>m\<close> calls of \<open>next()\<close> return \<open>(start + i * step) mod m\<close> for
  \<open>i = 0, ..., m - 1\<close> and every later call returns \<open>npos\<close>; if moreover the step is coprime to
  \<open>m\<close>, these \<open>m\<close> probes are pairwise different and are exactly the indices below \<open>m\<close>.
  (Primality of \<open>m\<close> is not needed. \<open>DoubleHashProber_no_wrap_in_table\<close> shows that the
  bound holds for \<open>start < m \<le> 2\<^sup>3\<^sup>2\<close>, which covers every call from \<open>HashTable::probe\<close>.)
\<close>

theorem DoubleHashProber_step_and_sequence:
  fixes start m :: "64 word"
  assumes "7 < m"
  shows "\<exists>p modulus.
      DoubleHashProber_init h2 start m key = Inr p
    \<and> largest_ladder_value_below m modulus
    \<and> prober_dhstep p = modulus - h2 key mod modulus
    \<and> (unat start + (unat m - 1) * unat (prober_dhstep p) < 2 ^ 64 \<longrightarrow>
         DoubleHashProber_calls (unat m + j) p
           = map (\<lambda>i. word_of_nat ((unat start + i * unat (prober_dhstep p)) mod unat m))
               [0..<unat m]
             @ replicate j npos
       \<and> (coprime (unat (prober_dhstep p)) (unat m) \<longrightarrow>
            distinct (DoubleHashProber_calls (unat m) p)
          \<and> set (DoubleHashProber_calls (unat m) p) = {loc. loc < m}))"
proof -
  obtain modulus where modulus: "largest_ladder_value_below m modulus"
    and init: "DoubleHashProber_init h2 start m key
         = Inr \<lparr>prober_start = start, prober_m = m, prober_numProbes = 0,
                prober_dhstep = modulus - h2 key mod modulus\<rparr>"
    using DoubleHashProber_init_step [OF assms, where h = h2 and start = start and key = key]
    by blast
  define step where "step = modulus - h2 key mod modulus"
  let ?p = "\<lparr>prober_start = start, prober_m = m, prober_numProbes = 0, prober_dhstep = step\<rparr>"
  let ?f = "\<lambda>i. (unat start + i * unat step) mod unat m"
  have calls: "DoubleHashProber_calls (unat m + j) ?p
      = map (\<lambda>i. word_of_nat (?f i)) [0..<unat m] @ replicate j npos"
    if "unat start + (unat m - 1) * unat step < 2 ^ 64" for j
    using DoubleHashProber_calls_prefix [OF that, of 0 "unat m" j]
    by (simp add: DoubleHashProber_calls_exhausted)
  have cover: "distinct (DoubleHashProber_calls (unat m) ?p)
      \<and> set (DoubleHashProber_calls (unat m) ?p) = {loc. loc < m}"
    if no_wrap: "unat start + (unat m - 1) * unat step < 2 ^ 64"
      and cop: "coprime (unat step) (unat m)"
  proof -
    from calls [OF no_wrap, of 0] have first:
      "DoubleHashProber_calls (unat m) ?p = map (\<lambda>i. word_of_nat (?f i)) [0..<unat m]"
      by simp
    have inj: "inj_on ?f {0..<unat m}" and img: "?f ` {0..<unat m} = {0..<unat m}"
      using cop by (rule probe_indices_inj, rule probe_indices_cover)
    have "inj_on (\<lambda>i. word_of_nat (?f i) :: 64 word) {0..<unat m}"
      using comp_inj_on [OF inj] img word_of_nat_inj_below [of m] by (simp add: comp_def)
    then have "distinct (map (\<lambda>i. word_of_nat (?f i) :: 64 word) [0..<unat m])"
      by (simp add: distinct_map)
    moreover have "set (map (\<lambda>i. word_of_nat (?f i) :: 64 word) [0..<unat m]) = {loc. loc < m}"
    proof -
      have "set (map (\<lambda>i. word_of_nat (?f i) :: 64 word) [0..<unat m])
          = word_of_nat ` (?f ` {0..<unat m})"
        by (simp add: image_image)
      also have "\<dots> = word_of_nat ` {0..<unat m}"
        by (simp only: img)
      also have "\<dots> = {loc. loc < m}"
        by (rule word_of_nat_below)
      finally show ?thesis .
    qed
    ultimately show ?thesis
      using first by simp
  qed
  have "DoubleHashProber_init h2 start m key = Inr ?p" and "prober_dhstep ?p = step"
    using init by (simp_all add: step_def)
  then show ?thesis
    using modulus calls cover step_def by (intro exI [of _ ?p] exI [of _ modulus]) simp
qed

theorem DoubleHashProber_step_and_sequence_witness:
  "(7 :: 64 word) < 11
   \<and> map_sum id prober_dhstep (DoubleHashProber_init (\<lambda>k. k) 3 11 5) = Inr 2
   \<and> largest_ladder_value_below 11 7
   \<and> (2 :: 64 word) = 7 - 5 mod 7
   \<and> unat (3 :: 64 word) + (unat (11 :: 64 word) - 1) * unat (2 :: 64 word) < 2 ^ 64
   \<and> coprime (unat (2 :: 64 word)) (unat (11 :: 64 word))
   \<and> map_sum id (DoubleHashProber_calls (unat (11 :: 64 word) + 1))
         (DoubleHashProber_init (\<lambda>k. k) 3 11 5)
       = Inr [3, 5, 7, 9, 0, 2, 4, 6, 8, 10, 1, npos]"
proof -
  have "(7 :: 64 word) < 11" and "(2 :: 64 word) = 7 - 5 mod 7"
    and "unat (3 :: 64 word) + (unat (11 :: 64 word) - 1) * unat (2 :: 64 word) < 2 ^ 64"
    by simp_all
  moreover have "map_sum id prober_dhstep (DoubleHashProber_init (\<lambda>k. k) 3 11 5) = Inr 2"
    and "largest_ladder_value_below 11 7"
    and "map_sum id (DoubleHashProber_calls (unat (11 :: 64 word) + 1))
         (DoubleHashProber_init (\<lambda>k. k) 3 11 5)
       = Inr [3, 5, 7, 9, 0, 2, 4, 6, 8, 10, 1, npos]"
    by code_simp+
  moreover have "coprime (unat (2 :: 64 word)) (unat (11 :: 64 word))"
    by simp
  ultimately show ?thesis
    using DoubleHashProber_step_and_sequence [of 11 "\<lambda>k. k" 3 5 1] by simp
qed

section \<open>C8: the linear probe sequence\<close>

text \<open>
  C8 as stated, for every start index, fails on the code: \<open>start_ + numProbes_\<close> is computed
  in 64 bits. With \<open>start = 2\<^sup>6\<^sup>4 - 1\<close> and capacity 3 the three probes are 0, 0, 1
  (\<open>start + 1\<close> wraps to 0): index 0 comes twice and index 2 never.
\<close>

theorem LinearProber_wraps_counterexample:
  "LinearProber_calls 3 (Prober_init (- 1) 3 (0 :: 64 word)) = [0, 0, 1]
   \<and> \<not> distinct (LinearProber_calls 3 (Prober_init (- 1) 3 (0 :: 64 word)))
   \<and> 2 \<notin> set (LinearProber_calls 3 (Prober_init (- 1) 3 (0 :: 64 word)))"
  by code_simp

text \<open>
  C8, amended: for every capacity \<open>m \<ge> 1\<close>, every key and every start index with
  \<open>start + m \<le> 2\<^sup>6\<^sup>4\<close> (in particular \<open>start < m \<le> 2\<^sup>6\<^sup>3\<close>, which covers every call
  from \<open>HashTable::probe\<close>), the first \<open>m\<close> calls of \<open>next()\<close> return \<open>(start + i) mod m\<close> for
  \<open>i = 0, ..., m - 1\<close>, these are pairwise different and are exactly the indices below \<open>m\<close>,
  and every later call returns \<open>npos\<close>.
\<close>

theorem LinearProber_visits_every_index_once:
  fixes start m :: "64 word"
  assumes "m \<noteq> 0" and "unat start + unat m \<le> 2 ^ 64"
  shows "LinearProber_calls (unat m + j) (Prober_init start m key)
           = map (\<lambda>i. word_of_nat ((unat start + i) mod unat m)) [0..<unat m] @ replicate j npos
     \<and> distinct (LinearProber_calls (unat m) (Prober_init start m key))
     \<and> set (LinearProber_calls (unat m) (Prober_init start m key)) = {loc. loc < m}"
proof -
  let ?f = "\<lambda>i. (unat start + i) mod unat m"
  have calls: "LinearProber_calls (unat m + j) (Prober_init start m key)
      = map (\<lambda>i. word_of_nat (?f i)) [0..<unat m] @ replicate j npos" for j
    using LinearProber_calls_prefix [OF assms(2), of 0 "unat m" j]
    by (simp add: Prober_init_def LinearProber_calls_exhausted)
  from calls [of 0] have first:
    "LinearProber_calls (unat m) (Prober_init start m key) = map (\<lambda>i. word_of_nat (?f i)) [0..<unat m]"
    by simp
  have "coprime (1 :: nat) (unat m)"
    by simp
  then have "inj_on (\<lambda>i. (unat start + i * 1) mod unat m) {0..<unat m}"
    and "(\<lambda>i. (unat start + i * 1) mod unat m) ` {0..<unat m} = {0..<unat m}"
    by (rule probe_indices_inj, rule probe_indices_cover)
  then have inj: "inj_on ?f {0..<unat m}" and img: "?f ` {0..<unat m} = {0..<unat m}"
    by simp_all
  have "inj_on (\<lambda>i. word_of_nat (?f i) :: 64 word) {0..<unat m}"
    using comp_inj_on [OF inj] img word_of_nat_inj_below [of m] by (simp add: comp_def)
  then have "distinct (map (\<lambda>i. word_of_nat (?f i) :: 64 word) [0..<unat m])"
    by (simp add: distinct_map)
  moreover have "set (map (\<lambda>i. word_of_nat (?f i) :: 64 word) [0..<unat m]) = {loc. loc < m}"
  proof -
    have "set (map (\<lambda>i. word_of_nat (?f i) :: 64 word) [0..<unat m])
        = word_of_nat ` (?f ` {0..<unat m})"
      by (simp add: image_image)
    also have "\<dots> = word_of_nat ` {0..<unat m}"
      by (simp only: img)
    also have "\<dots> = {loc. loc < m}"
      by (rule word_of_nat_below)
    finally show ?thesis .
  qed
  ultimately show ?thesis
    using calls [of j] first by simp
qed

theorem LinearProber_visits_every_index_once_witness:
  "(7 :: 64 word) \<noteq> 0 \<and> unat (5 :: 64 word) + unat (7 :: 64 word) \<le> 2 ^ 64
   \<and> LinearProber_calls (unat (7 :: 64 word) + 2) (Prober_init 5 7 (0 :: 64 word))
       = [5, 6, 0, 1, 2, 3, 4, npos, npos]
   \<and> distinct (LinearProber_calls (unat (7 :: 64 word)) (Prober_init 5 7 (0 :: 64 word)))"
proof -
  have "(7 :: 64 word) \<noteq> 0" and "unat (5 :: 64 word) + unat (7 :: 64 word) \<le> 2 ^ 64"
    by simp_all
  moreover have "map (\<lambda>i. word_of_nat ((unat (5 :: 64 word) + i) mod unat (7 :: 64 word))) [0..<unat (7 :: 64 word)]
     @ replicate 2 npos = [5, 6, 0, 1, 2, 3, 4, npos, npos :: 64 word]"
    by code_simp
  ultimately show ?thesis
    using LinearProber_visits_every_index_once [of 7 5 2 "0 :: 64 word"] by simp
qed

section \<open>C9: at and find\<close>

text \<open>
  C9: on every table that satisfies the class invariant, \<open>find(key)\<close> returns (a pair or null)
  and raises nothing; \<open>at(key)\<close> raises KeyNotFound exactly when \<open>find(key)\<close> returns null;
  and when \<open>find(key)\<close> returns a pair, \<open>at(key)\<close> returns the value of that pair.
  (Every table that a run of public operations reaches from the constructor satisfies the
  invariant: \<open>run_invariant\<close>.)
\<close>

theorem at_throws_iff_find_is_null:
  assumes "HashTable_invariant t"
  shows "(\<exists>r. HashTable_find key t = Inr r)
     \<and> (HashTable_at key t = Inl KeyNotFound \<longleftrightarrow> HashTable_find key t = Inr None)
     \<and> (\<forall>kv. HashTable_find key t = Inr (Some kv) \<longrightarrow> HashTable_at key t = Inr (snd kv))"
proof -
  obtain loc where "HashTable_probe {} t key = Inr loc"
    using HashTable_probe_returns [OF assms] by blast
  then have "\<exists>r. HashTable_find key t = Inr r"
    by (simp add: HashTable_find_def split: option.splits)
  moreover have "HashTable_at key t = Inl KeyNotFound \<longleftrightarrow> HashTable_find key t = Inr None"
    using calculation by (auto simp: HashTable_at_def split: sum.splits option.splits)
  moreover have "\<forall>kv. HashTable_find key t = Inr (Some kv) \<longrightarrow> HashTable_at key t = Inr (snd kv)"
    by (simp add: HashTable_at_def)
  ultimately show ?thesis
    by blast
qed

theorem at_throws_iff_find_is_null_witness:
  "HashTable_invariant (size_t_table 0.4)
   \<and> HashTable_find 3 (size_t_table 0.4) = Inr None
   \<and> HashTable_at 3 (size_t_table 0.4) = Inl KeyNotFound
   \<and> run [Insert (3, 7)] (size_t_table 0.4) = Inr (projr (run [Insert (3, 7)] (size_t_table 0.4)))
   \<and> HashTable_invariant (projr (run [Insert (3, 7)] (size_t_table 0.4)))
   \<and> HashTable_find 3 (projr (run [Insert (3, 7)] (size_t_table 0.4))) = Inr (Some (3, 7))
   \<and> HashTable_at 3 (projr (run [Insert (3, 7)] (size_t_table 0.4))) = Inr 7"
proof -
  let ?t0 = "size_t_table 0.4"
  let ?t1 = "projr (run [Insert (3, 7)] (size_t_table 0.4))"
  have inv0: "HashTable_invariant ?t0" and inv1: "HashTable_invariant ?t1"
    by code_simp+
  have "HashTable_find 3 ?t0 = Inr None" and "HashTable_find 3 ?t1 = Inr (Some (3, 7))"
    by code_simp+
  moreover have "case run [Insert (3, 7)] ?t0 of Inl e \<Rightarrow> False | Inr t \<Rightarrow> True"
    by code_simp
  then have "run [Insert (3, 7)] ?t0 = Inr ?t1"
    by (cases "run [Insert (3, 7)] ?t0") simp_all
  ultimately show ?thesis
    using at_throws_iff_find_is_null [OF inv0, of 3] at_throws_iff_find_is_null [OF inv1, of 3]
      inv0 inv1
    by simp
qed

section \<open>C10: modulus selection stays inside the ladder\<close>

text \<open>
  C10: for every capacity above 7, the smallest entry of \<open>DOUBLE_HASH_MOD_VALUES\<close>,
  \<open>findModulusToUseFromTableSize\<close> reads only entries of the array (the model returns
  \<open>OutOfBounds\<close> exactly for the read at index \<open>-1\<close>) and returns one of them; and every
  capacity of the \<open>CAPACITIES\<close> ladder is above 7.
\<close>

theorem modulus_selection_in_bounds:
  "(7 < m \<longrightarrow> (\<exists>v. findModulusToUseFromTableSize m = Inr v \<and> v \<in> set DOUBLE_HASH_MOD_VALUES))
   \<and> (\<forall>c\<in>set CAPACITIES. 7 < c)"
  using findModulus_largest_below [of m] CAPACITIES_above_7 by blast

theorem modulus_selection_in_bounds_witness:
  "(7 :: 64 word) < 11 \<and> 11 \<in> set CAPACITIES
   \<and> findModulusToUseFromTableSize 11 = Inr 7 \<and> 7 \<in> set DOUBLE_HASH_MOD_VALUES"
proof -
  have "(7 :: 64 word) < 11" and "(11 :: 64 word) \<in> set CAPACITIES"
    and "findModulusToUseFromTableSize 11 = Inr 7" and "(7 :: 64 word) \<in> set DOUBLE_HASH_MOD_VALUES"
    by code_simp+
  then show ?thesis
    using modulus_selection_in_bounds [of 11] by simp
qed

end
